theory Spec2Isabelle
  imports Main "HOL-Library.Sublist"
begin

section \<open>Strings as Python uses them\<close>

text \<open>
  Python strings are modelled as \<^typ>\<open>string\<close>. Every name that passes
  \<open>check_name\<close> is pure ASCII, so one \<^typ>\<open>char\<close> per code point is exact on them.

  \<open>split_on sep s\<close> is \<open>s.split(sep)\<close> for a one-character separator: empty fields are
  kept, and the empty string splits into one empty field.
\<close>

fun split_on :: "char \<Rightarrow> string \<Rightarrow> string list" where
  "split_on sep [] = [[]]"
| "split_on sep (c # cs) =
     (if c = sep then [] # split_on sep cs
      else (case split_on sep cs of
              [] \<Rightarrow> [[c]]
            | w # ws \<Rightarrow> (c # w) # ws))"

text \<open>
  \<open>split_image img dflt\<close> is the source's
  \<^verbatim>\<open>image.split(":", 1) if ":" in image else (image, dflt)\<close>:
  the split is at the first colon only.
\<close>

definition split_image :: "string \<Rightarrow> string \<Rightarrow> string \<times> string" where
  "split_image img dflt =
     (if CHR '':'' \<in> set img
      then (takeWhile (\<lambda>c. c \<noteq> CHR '':'') img, tl (dropWhile (\<lambda>c. c \<noteq> CHR '':'') img))
      else (img, dflt))"


section \<open>Regular expressions of \<open>check_name\<close>\<close>

text \<open>
  The two patterns of \<open>check_name\<close> use character classes, concatenation, alternation,
  \<open>*\<close> and \<open>+\<close> only. They are matched by Brzozowski derivatives; \<open>Chars []\<close> is the
  pattern that matches nothing.
\<close>

datatype rx = Chars "char list" | Eps | Cat rx rx | Alt rx rx | Rep rx

fun nullable :: "rx \<Rightarrow> bool" where
  "nullable (Chars cs) = False"
| "nullable Eps = True"
| "nullable (Cat r s) = (nullable r \<and> nullable s)"
| "nullable (Alt r s) = (nullable r \<or> nullable s)"
| "nullable (Rep r) = True"

fun deriv :: "char \<Rightarrow> rx \<Rightarrow> rx" where
  "deriv c (Chars cs) = (if c \<in> set cs then Eps else Chars [])"
| "deriv c Eps = Chars []"
| "deriv c (Cat r s) =
     (if nullable r then Alt (Cat (deriv c r) s) (deriv c s) else Cat (deriv c r) s)"
| "deriv c (Alt r s) = Alt (deriv c r) (deriv c s)"
| "deriv c (Rep r) = Cat (deriv c r) (Rep r)"

fun derivs :: "rx \<Rightarrow> string \<Rightarrow> rx" where
  "derivs r [] = r"
| "derivs r (c # cs) = derivs (deriv c r) cs"

definition fullmatch :: "rx \<Rightarrow> string \<Rightarrow> bool" where
  "fullmatch r s = nullable (derivs r s)"

text \<open>
  \<open>re_match_eol r s\<close> is the truth value of \<^verbatim>\<open>re.match(r + '$', s)\<close>. The match starts at
  the beginning of \<open>s\<close>; Python's \<open>$\<close> (without \<open>re.MULTILINE\<close>) matches at the end of the
  string and also just before a newline that is the last character.
\<close>

definition re_match_eol :: "rx \<Rightarrow> string \<Rightarrow> bool" where
  "re_match_eol r s =
     (fullmatch r s \<or> (s \<noteq> [] \<and> last s = CHR 0x0A \<and> fullmatch r (butlast s)))"

definition Plus :: "rx \<Rightarrow> rx" where
  "Plus r = Cat r (Rep r)"

definition lower_digit :: "char list" where
  "lower_digit = ''abcdefghijklmnopqrstuvwxyz0123456789''"

definition alnum_us :: "char list" where
  "alnum_us = ''abcdefghijklmnopqrstuvwxyzABCDEFGHIJKLMNOPQRSTUVWXYZ0123456789_''"

text \<open>\<^verbatim>\<open>[a-zA-Z0-9_][a-zA-Z0-9_.-]*\<close>\<close>

definition tag_rx :: rx where
  "tag_rx = Cat (Chars alnum_us) (Rep (Chars (alnum_us @ ''.-'')))"

text \<open>\<^verbatim>\<open>[a-z0-9]+(?:(?:[._]|__|[-]*)[a-z0-9]+)*\<close>\<close>

definition component_rx :: rx where
  "component_rx =
     Cat (Plus (Chars lower_digit))
         (Rep (Cat (Alt (Chars ''._'')
                        (Alt (Cat (Chars ''_'') (Chars ''_''))
                             (Rep (Chars ''-''))))
                   (Plus (Chars lower_digit))))"

text \<open>
  \<open>check_name\<close> returns the value of an \<open>and\<close> chain whose last operands are a match object
  and a \<open>bool\<close>; the model returns its truth value, which is all that \<open>main\<close> reads.
\<close>

definition check_name :: "string \<Rightarrow> bool" where
  "check_name img =
     (let (repo, tag) = split_image img ''latest'' in
      length img < 256 \<and> length tag < 129 \<and> re_match_eol tag_rx tag \<and>
      list_all (re_match_eol component_rx) (split_on CHR ''/'' repo))"


section \<open>The store on disk\<close>

text \<open>
  The script works on the directory tree below the registry's \<open>repositories\<close> directory,
  which \<open>RegistryCleaner.__init__\<close> makes the working directory. The tree is a list of
  entries, each a path (its components from the working directory down) with its kind:
  a plain file with its content, or a directory. The working directory itself is the
  path \<open>[]\<close>. Symbolic links, permissions and I/O errors other than the three
  exceptions below are not modelled.
\<close>

type_synonym path = "string list"

datatype node = File string | Dir

type_synonym store = "(path \<times> node) list"

datatype exn = FileNotFoundError | NotADirectoryError | IsADirectoryError

definition lookup :: "store \<Rightarrow> path \<Rightarrow> node option" where
  "lookup fs p = map_of fs p"

text \<open>\<^verbatim>\<open>os.path.isdir\<close> and \<^verbatim>\<open>os.path.isfile\<close>\<close>

definition isdir :: "store \<Rightarrow> path \<Rightarrow> bool" where
  "isdir fs p = (lookup fs p = Some Dir)"

definition isfile :: "store \<Rightarrow> path \<Rightarrow> bool" where
  "isfile fs p = (case lookup fs p of Some (File c) \<Rightarrow> True | _ \<Rightarrow> False)"

text \<open>
  A store is tree-shaped when no path is listed twice and the parent of every entry is a
  directory of the store. Every store a real file system can hold is tree-shaped; the
  operations below are defined on all lists, and are the file system's on tree-shaped ones.
\<close>

definition wf_store :: "store \<Rightarrow> bool" where
  "wf_store fs =
     (distinct (map fst fs) \<and> list_all (\<lambda>p. p = [] \<or> isdir fs (butlast p)) (map fst fs))"

text \<open>\<^verbatim>\<open>os.listdir(p)\<close>: the names of the entries directly below \<open>p\<close>.\<close>

definition children :: "store \<Rightarrow> path \<Rightarrow> string list" where
  "children fs p = remdups (map last (filter (\<lambda>q. q \<noteq> [] \<and> butlast q = p) (map fst fs)))"

definition listdir :: "store \<Rightarrow> path \<Rightarrow> exn + string list" where
  "listdir fs p =
     (case lookup fs p of
        None \<Rightarrow> Inl FileNotFoundError
      | Some (File c) \<Rightarrow> Inl NotADirectoryError
      | Some Dir \<Rightarrow> Inr (children fs p))"

text \<open>\<^verbatim>\<open>open(p).read()\<close>\<close>

definition read_file :: "store \<Rightarrow> path \<Rightarrow> exn + string" where
  "read_file fs p =
     (case lookup fs p of
        None \<Rightarrow> Inl FileNotFoundError
      | Some Dir \<Rightarrow> Inl IsADirectoryError
      | Some (File c) \<Rightarrow> Inr c)"

text \<open>
  \<^verbatim>\<open>shutil.rmtree(p)\<close> deletes the directory \<open>p\<close> and everything below it, and raises
  when \<open>p\<close> is missing or is not a directory.
\<close>

definition rmtree :: "store \<Rightarrow> path \<Rightarrow> exn + store" where
  "rmtree fs p =
     (case lookup fs p of
        None \<Rightarrow> Inl FileNotFoundError
      | Some (File c) \<Rightarrow> Inl NotADirectoryError
      | Some Dir \<Rightarrow> Inr (filter (\<lambda>e. \<not> prefix p (fst e)) fs))"

text \<open>
  \<open>path_of s\<close> is the path a relative name \<open>s\<close> denotes: its components between slashes,
  empty components dropped (\<open>a//b\<close> and \<open>a/b/\<close> are \<open>a/b\<close>). The source builds names by
  string concatenation, for instance
  \<^verbatim>\<open>repo + "/_manifests/tags/" + tag + "/current/link"\<close>; the model writes the path such a
  name denotes, \<open>path_of repo @ [''_manifests'', ''tags''] @ path_of tag @ [''current'', ''link'']\<close>.
  That the concatenated names denote these paths is proved below (\<open>link_name\<close>,
  \<open>index_name\<close>, \<open>revision_name\<close>, \<open>tags_name\<close>).
  The components \<open>.\<close> and \<open>..\<close> and a leading slash are not interpreted: no name that
  passes \<open>check_name\<close> and no name that \<open>os.listdir\<close> returns has them.
\<close>

definition path_of :: "string \<Rightarrow> path" where
  "path_of s = filter (\<lambda>n. n \<noteq> []) (split_on CHR ''/'' s)"

definition tags_dir :: "string \<Rightarrow> path" where
  "tags_dir repo = path_of repo @ [''_manifests'', ''tags'']"

definition tag_dir :: "string \<Rightarrow> string \<Rightarrow> path" where
  "tag_dir repo tag = tags_dir repo @ path_of tag"

definition revisions_dir :: "string \<Rightarrow> path" where
  "revisions_dir repo = path_of repo @ [''_manifests'', ''revisions'', ''sha256'']"

text \<open>
  \<^verbatim>\<open>glob.iglob\<close>, for the patterns the script uses: every component is a literal name or
  a lone \<open>*\<close>, and \<open>*\<close> matches every name that does not begin with a dot. The repository
  name is matched literally (a name that passes \<open>check_name\<close> has no glob metacharacter).
\<close>

datatype pat = Lit string | Wild

definition hidden :: "string \<Rightarrow> bool" where
  "hidden n = (take 1 n = ''.'')"

fun pmatch :: "pat \<Rightarrow> string \<Rightarrow> bool" where
  "pmatch (Lit s) n = (n = s)"
| "pmatch Wild n = (\<not> hidden n)"

definition iglob :: "store \<Rightarrow> pat list \<Rightarrow> path list" where
  "iglob fs ps = filter (list_all2 pmatch ps) (map fst fs)"

text \<open>\<^verbatim>\<open>repo + "/_manifests/tags/*/*/sha256/*"\<close>\<close>

definition manifests_pat :: "string \<Rightarrow> pat list" where
  "manifests_pat repo =
     map Lit (path_of repo) @ [Lit ''_manifests'', Lit ''tags'', Wild, Wild, Lit ''sha256'', Wild]"

text \<open>\<^verbatim>\<open>repo + "/_manifests/tags/*/current/link"\<close>\<close>

definition links_pat :: "string \<Rightarrow> pat list" where
  "links_pat repo =
     map Lit (path_of repo) @ [Lit ''_manifests'', Lit ''tags'', Wild, Lit ''current'', Lit ''link'']"

text \<open>\<^verbatim>\<open>repo + "/_manifests/tags/*/index/sha256/*"\<close>\<close>

definition index_pat :: "string \<Rightarrow> pat list" where
  "index_pat repo =
     map Lit (path_of repo) @
       [Lit ''_manifests'', Lit ''tags'', Wild, Lit ''index'', Lit ''sha256'', Wild]"


section \<open>The pruner\<close>

text \<open>
  The command line, as \<open>argparse\<close> leaves it in the global \<open>args\<close>. The messages that
  \<open>remove\<close> prints to the standard output are not modelled, so \<open>quiet_opt\<close> is read nowhere.
\<close>

record args =
  help_opt :: bool
  quiet_opt :: bool
  remove_opt :: bool
  version_opt :: bool
  images :: "string list"

text \<open>
  What a call of \<open>clean_tag\<close> or \<open>clean_repo\<close> comes to: \<open>Done\<close> is \<^verbatim>\<open>return True\<close>;
  \<open>Failed msg\<close> is \<^verbatim>\<open>error(msg, Exit=False); return False\<close>, the only way either function
  returns false; \<open>Raised e\<close> is an exception that leaves the function.
\<close>

datatype outcome = Done | Failed string | Raised exn

text \<open>\<^verbatim>\<open>f.read()[len("sha256:"):]\<close>: the content of a link file without its first seven characters.\<close>

definition link_digest :: "string \<Rightarrow> string" where
  "link_digest content = drop (length ''sha256:'') content"

text \<open>\<^verbatim>\<open>for p in ps: remove(p)\<close>; the exception of a failing \<open>rmtree\<close> ends the loop.\<close>

fun remove_each :: "store \<Rightarrow> path list \<Rightarrow> store \<times> exn option" where
  "remove_each fs [] = (fs, None)"
| "remove_each fs (p # ps) =
     (case rmtree fs p of
        Inl e \<Rightarrow> (fs, Some e)
      | Inr fs' \<Rightarrow> remove_each fs' ps)"

definition clean_revisions :: "store \<Rightarrow> string \<Rightarrow> store \<times> exn option" where
  "clean_revisions fs repo =
     (case listdir fs (revisions_dir repo) of
        Inl e \<Rightarrow> (fs, Some e)
      | Inr revisions \<Rightarrow>
          let manifests = map last (iglob fs (manifests_pat repo))
          in remove_each fs
               (map (\<lambda>revision. revisions_dir repo @ [revision])
                    (filter (\<lambda>revision. revision \<notin> set manifests) revisions)))"

definition clean_tag :: "args \<Rightarrow> store \<Rightarrow> string \<Rightarrow> string \<Rightarrow> store \<times> outcome" where
  "clean_tag a fs repo tag =
     (let link = tag_dir repo tag @ [''current'', ''link''] in
      if \<not> isfile fs link
      then (fs, Failed (''No such tag: '' @ tag @ '' in repository '' @ repo))
      else if remove_opt a
      then (case rmtree fs (tag_dir repo tag) of
              Inl e \<Rightarrow> (fs, Raised e)
            | Inr fs' \<Rightarrow> (fs', Done))
      else (case read_file fs link of
              Inl e \<Rightarrow> (fs, Raised e)
            | Inr content \<Rightarrow>
                let current = link_digest content;
                    path = tag_dir repo tag @ [''index'', ''sha256'']
                in (case listdir fs path of
                      Inl e \<Rightarrow> (fs, Raised e)
                    | Inr names \<Rightarrow>
                        (case remove_each fs
                                (map (\<lambda>index. path @ [index])
                                     (filter (\<lambda>index. index \<noteq> current) names)) of
                           (fs1, Some e) \<Rightarrow> (fs1, Raised e)
                         | (fs1, None) \<Rightarrow>
                             (case clean_revisions fs1 repo of
                                (fs2, Some e) \<Rightarrow> (fs2, Raised e)
                              | (fs2, None) \<Rightarrow> (fs2, Done))))))"

text \<open>The digests that the \<open>current/link\<close> files hold, read in turn.\<close>

fun read_currents :: "store \<Rightarrow> path list \<Rightarrow> exn + string list" where
  "read_currents fs [] = Inr []"
| "read_currents fs (link # links) =
     (case read_file fs link of
        Inl e \<Rightarrow> Inl e
      | Inr content \<Rightarrow>
          (case read_currents fs links of
             Inl e \<Rightarrow> Inl e
           | Inr currents \<Rightarrow> Inr (link_digest content # currents)))"

text \<open>
  \<^verbatim>\<open>os.path.isdir("")\<close> is false, though the empty name has no component: the test of
  \<open>clean_repo\<close> on the repository directory fails on it. The test on \<open>args.remove\<close> and the
  listing of the tags directory come before the test on the tag, as in the source; the
  condition of the removal of the whole repository is
  \<^verbatim>\<open>not tag or len(tags) == 1 and tag in tags\<close>.
\<close>

definition clean_repo :: "args \<Rightarrow> store \<Rightarrow> string \<Rightarrow> store \<times> outcome" where
  "clean_repo a fs img =
     (let (repo, tag) = split_image img '''' in
      if repo = [] \<or> \<not> isdir fs (path_of repo)
      then (fs, Failed (''No such repository: '' @ repo))
      else
        (case (if remove_opt a
               then (case listdir fs (tags_dir repo) of
                       Inl e \<Rightarrow> Inl e
                     | Inr tags \<Rightarrow> Inr (tag = [] \<or> length tags = 1 \<and> tag \<in> set tags))
               else Inr False) of
           Inl e \<Rightarrow> (fs, Raised e)
         | Inr True \<Rightarrow>
             (case rmtree fs (path_of repo) of
                Inl e \<Rightarrow> (fs, Raised e)
              | Inr fs' \<Rightarrow> (fs', Done))
         | Inr False \<Rightarrow>
             if tag \<noteq> [] then clean_tag a fs repo tag
             else
               (case read_currents fs (iglob fs (links_pat repo)) of
                  Inl e \<Rightarrow> (fs, Raised e)
                | Inr currents \<Rightarrow>
                    (case remove_each fs
                            (filter (\<lambda>index. last index \<notin> set currents)
                                    (iglob fs (index_pat repo))) of
                       (fs1, Some e) \<Rightarrow> (fs1, Raised e)
                     | (fs1, None) \<Rightarrow>
                         (case clean_revisions fs1 repo of
                            (fs2, Some e) \<Rightarrow> (fs2, Raised e)
                          | (fs2, None) \<Rightarrow> (fs2, Done))))))"


section \<open>The orchestrator\<close>

text \<open>
  What the run finds outside the store: whether the script itself runs in a container,
  the exit code of the external collector, and whether \<open>RegistryCleaner.__init__\<close>
  (container inspection, version check, store root) gets through without calling
  \<open>error\<close>. The Docker calls \<open>stop\<close> and \<open>start\<close> are taken to return normally, and the
  collector to leave the link tree under \<open>repositories\<close> as it is.
\<close>

record env =
  dockerized :: bool
  collector_exit :: int
  setup_ok :: bool

datatype event = Stop | Collect | Start

text \<open>The Python values \<open>garbage_collect\<close> returns, and their truth value.\<close>

datatype pyval = PyInt int | PyBool bool

fun truthy :: "pyval \<Rightarrow> bool" where
  "truthy (PyInt n) = (n \<noteq> 0)"
| "truthy (PyBool b) = b"

text \<open>
  In a container the function returns \<^verbatim>\<open>proc.wait()\<close>, the exit code itself; otherwise
  \<^verbatim>\<open>True if cli.wait() == 0 else False\<close>, where \<open>cli.wait()\<close> is the exit code of
  the collector's container, an integer, as the Docker client this script was written
  for returns it.
\<close>

definition garbage_collect :: "env \<Rightarrow> pyval" where
  "garbage_collect e =
     (if dockerized e then PyInt (collector_exit e) else PyBool (collector_exit e = 0))"

text \<open>\<^verbatim>\<open>for image in images: if not clean_repo(image): rc = 1\<close>\<close>

fun clean_images :: "args \<Rightarrow> store \<Rightarrow> string list \<Rightarrow> int \<Rightarrow> store \<times> (exn + int)" where
  "clean_images a fs [] rc = (fs, Inr rc)"
| "clean_images a fs (img # imgs) rc =
     (case clean_repo a fs img of
        (fs', Raised e) \<Rightarrow> (fs', Inl e)
      | (fs', Failed msg) \<Rightarrow> clean_images a fs' imgs 1
      | (fs', Done) \<Rightarrow> clean_images a fs' imgs rc)"

text \<open>
  \<open>RegistryCleaner.__call__\<close>, with the trace of the external calls it makes. An exception
  leaves the method at once, before the collector and the restart.
\<close>

definition call :: "env \<Rightarrow> args \<Rightarrow> store \<Rightarrow> store \<times> event list \<times> (exn + int)" where
  "call e a fs =
     (case (if images a \<noteq> [] then Inr (images a) else listdir fs []) of
        Inl x \<Rightarrow> (fs, [Stop], Inl x)
      | Inr imgs \<Rightarrow>
          (case clean_images a fs imgs 0 of
             (fs', Inl x) \<Rightarrow> (fs', [Stop], Inl x)
           | (fs', Inr rc) \<Rightarrow>
               (fs', [Stop, Collect, Start],
                Inr (if \<not> truthy (garbage_collect e) then 1 else rc))))"

text \<open>
  \<open>main\<close>, to the exit status of the process. \<open>error\<close> exits with status 1; an exception
  that nothing catches ends the interpreter with status 1 as well.
\<close>

definition main :: "env \<Rightarrow> args \<Rightarrow> store \<Rightarrow> store \<times> event list \<times> int" where
  "main e a fs =
     (if help_opt a \<or> version_opt a then (fs, [], 0)
      else if \<not> list_all check_name (images a) then (fs, [], 1)
      else if remove_opt a \<and> images a = [] then (fs, [], 1)
      else if \<not> setup_ok e then (fs, [], 1)
      else (case call e a fs of
              (fs', tr, Inl x) \<Rightarrow> (fs', tr, 1)
            | (fs', tr, Inr rc) \<Rightarrow> (fs', tr, rc)))"


section \<open>The language of a pattern\<close>

text \<open>
  What a pattern matches, stated without the matcher: the strings of its language. The
  matcher is proved to decide this language below.
\<close>

inductive_set star :: "string set \<Rightarrow> string set" for A :: "string set" where
  star_empty: "[] \<in> star A"
| star_more: "u \<in> A \<Longrightarrow> v \<in> star A \<Longrightarrow> u @ v \<in> star A"

fun lang :: "rx \<Rightarrow> string set" where
  "lang (Chars cs) = {[c] | c. c \<in> set cs}"
| "lang Eps = {[]}"
| "lang (Cat r s) = {u @ v | u v. u \<in> lang r \<and> v \<in> lang s}"
| "lang (Alt r s) = lang r \<union> lang s"
| "lang (Rep r) = star (lang r)"


section \<open>What the claims speak of\<close>

text \<open>
  The digest a tag points to: the content of its \<open>current/link\<close> file after the
  \<open>sha256:\<close> prefix, read as \<open>clean_tag\<close> and \<open>clean_repo\<close> read it. The tag is given as
  the path of its directory below \<open>_manifests/tags\<close>: \<open>[t]\<close> for the tag named \<open>t\<close>.
\<close>

definition current_digest :: "store \<Rightarrow> string \<Rightarrow> path \<Rightarrow> string option" where
  "current_digest fs repo T =
     (case read_file fs (tags_dir repo @ T @ [''current'', ''link'']) of
        Inl e \<Rightarrow> None
      | Inr content \<Rightarrow> Some (link_digest content))"

text \<open>
  \<open>prune ds fs\<close> is the store \<open>fs\<close> without the trees rooted at the paths \<open>ds\<close>: what a
  run of \<open>rmtree\<close> over \<open>ds\<close> leaves.
\<close>

definition prune :: "path list \<Rightarrow> store \<Rightarrow> store" where
  "prune ds fs = filter (\<lambda>e. \<not> (\<exists>d\<in>set ds. prefix d (fst e))) fs"

text \<open>The lists the three loops of the pruner run \<open>remove\<close> over, named for the proofs.\<close>

definition stale_revisions :: "store \<Rightarrow> string \<Rightarrow> path list" where
  "stale_revisions fs repo =
     map (\<lambda>revision. revisions_dir repo @ [revision])
       (filter (\<lambda>revision. revision \<notin> set (map last (iglob fs (manifests_pat repo))))
          (children fs (revisions_dir repo)))"

definition stale_index :: "store \<Rightarrow> string \<Rightarrow> string \<Rightarrow> string \<Rightarrow> path list" where
  "stale_index fs repo tag content =
     map (\<lambda>index. (tag_dir repo tag @ [''index'', ''sha256'']) @ [index])
       (filter (\<lambda>index. index \<noteq> link_digest content)
          (children fs (tag_dir repo tag @ [''index'', ''sha256''])))"

definition stale_entries :: "store \<Rightarrow> string \<Rightarrow> string list \<Rightarrow> path list" where
  "stale_entries fs repo currents =
     filter (\<lambda>index. last index \<notin> set currents) (iglob fs (index_pat repo))"

text \<open>
  The two kinds of entry a prune may delete: an index entry of a tag whose digest is not
  that tag's current digest, and a revision entry.
\<close>

definition prunable :: "store \<Rightarrow> string \<Rightarrow> path \<Rightarrow> bool" where
  "prunable fs repo d =
     ((\<exists>T i. d = tags_dir repo @ T @ [''index'', ''sha256'', i] \<and> current_digest fs repo T \<noteq> Some i)
      \<or> (\<exists>r. d = revisions_dir repo @ [r]))"

text \<open>
  Every entry that the sweep's pattern \<open>tags/*/*/sha256/*\<close> finds is an index entry, as
  in the registry's layout, where \<open>index\<close> is the only directory of a tag that holds a
  \<open>sha256\<close> directory.
\<close>

definition index_only :: "store \<Rightarrow> string \<Rightarrow> bool" where
  "index_only fs repo =
     list_all (\<lambda>q. q \<in> set (iglob fs (index_pat repo))) (iglob fs (manifests_pat repo))"


section \<open>Example stores\<close>

text \<open>
  The entries of one tag (its directory, its \<open>current/link\<close> file and its index entries)
  and of the revisions directory, laid out as the registry lays them out.
\<close>

definition tag_entries :: "path \<Rightarrow> string \<Rightarrow> string \<Rightarrow> string list \<Rightarrow> store" where
  "tag_entries R t cur idx =
     [(R @ [''_manifests'', ''tags'', t], Dir),
      (R @ [''_manifests'', ''tags'', t, ''current''], Dir),
      (R @ [''_manifests'', ''tags'', t, ''current'', ''link''], File (''sha256:'' @ cur)),
      (R @ [''_manifests'', ''tags'', t, ''index''], Dir),
      (R @ [''_manifests'', ''tags'', t, ''index'', ''sha256''], Dir)] @
     map (\<lambda>d. (R @ [''_manifests'', ''tags'', t, ''index'', ''sha256'', d], Dir)) idx"

definition revision_entries :: "path \<Rightarrow> string list \<Rightarrow> store" where
  "revision_entries R revs =
     [(R @ [''_manifests'', ''revisions''], Dir),
      (R @ [''_manifests'', ''revisions'', ''sha256''], Dir)] @
     map (\<lambda>d. (R @ [''_manifests'', ''revisions'', ''sha256'', d], Dir)) revs"

text \<open>
  The repository \<open>r\<close> of the specification's idempotence example: tags \<open>t1\<close> at \<open>d1\<close> and
  \<open>t2\<close> at \<open>d2\<close>, index entries \<open>d1, d3\<close> and \<open>d2, d4\<close>, revisions \<open>d1\<close> to \<open>d4\<close>; and what
  one prune of all its tags leaves.
\<close>

definition ex_store :: store where
  "ex_store =
     [([], Dir), ([''r''], Dir), ([''r'', ''_manifests''], Dir), ([''r'', ''_manifests'', ''tags''], Dir)] @
     tag_entries [''r''] ''t1'' ''d1'' [''d1'', ''d3''] @
     tag_entries [''r''] ''t2'' ''d2'' [''d2'', ''d4''] @
     revision_entries [''r''] [''d1'', ''d2'', ''d3'', ''d4'']"

definition ex_pruned :: store where
  "ex_pruned =
     [([], Dir), ([''r''], Dir), ([''r'', ''_manifests''], Dir), ([''r'', ''_manifests'', ''tags''], Dir)] @
     tag_entries [''r''] ''t1'' ''d1'' [''d1''] @
     tag_entries [''r''] ''t2'' ''d2'' [''d2''] @
     revision_entries [''r''] [''d1'', ''d2'']"

text \<open>
  The repository \<open>r\<close> with a stale index entry \<open>d4\<close> of the tag \<open>t2\<close>: tags \<open>t1\<close> at \<open>d1\<close>
  and \<open>t2\<close> at \<open>d2\<close>, index entries \<open>d1\<close> and \<open>d2, d4\<close>, revisions \<open>d1, d2, d4\<close>.
\<close>

definition ex_stale :: store where
  "ex_stale =
     [([], Dir), ([''r''], Dir), ([''r'', ''_manifests''], Dir), ([''r'', ''_manifests'', ''tags''], Dir)] @
     tag_entries [''r''] ''t1'' ''d1'' [''d1''] @
     tag_entries [''r''] ''t2'' ''d2'' [''d2'', ''d4''] @
     revision_entries [''r''] [''d1'', ''d2'', ''d4'']"

text \<open>The command line of a plain prune: no option set.\<close>

definition prune_args :: args where
  "prune_args =
     \<lparr>help_opt = False, quiet_opt = False, remove_opt = False, version_opt = False, images = []\<rparr>"

text \<open>The command line of a removal: \<open>-x\<close> set.\<close>

definition remove_args :: args where
  "remove_args =
     \<lparr>help_opt = False, quiet_opt = False, remove_opt = True, version_opt = False, images = []\<rparr>"

text \<open>The repository \<open>r\<close> with the single tag \<open>t1\<close> at \<open>d1\<close>.\<close>

definition ex_single :: store where
  "ex_single =
     [([], Dir), ([''r''], Dir), ([''r'', ''_manifests''], Dir), ([''r'', ''_manifests'', ''tags''], Dir)] @
     tag_entries [''r''] ''t1'' ''d1'' [''d1''] @
     revision_entries [''r''] [''d1'']"







section \<open>Properties of the name validator\<close>

lemma derivs_dead: "derivs (Cat (Chars []) r) s = Cat (Chars []) r"
  by (induction s) simp_all

lemma fullmatch_first_char:
  assumes "c \<notin> set cs"
  shows "\<not> fullmatch (Cat (Chars cs) r) (c # s)"
  using assms by (simp add: fullmatch_def derivs_dead)

lemma re_match_eol_first_char:
  assumes "c \<notin> set cs"
  shows "\<not> re_match_eol (Cat (Chars cs) r) (c # s)"
proof (cases s)
  case Nil
  with assms show ?thesis
    by (simp add: re_match_eol_def fullmatch_def derivs_dead)
next
  case (Cons d ds)
  then have "butlast (c # s) = c # butlast s"
    by simp
  with assms show ?thesis
    unfolding re_match_eol_def using fullmatch_first_char [of c cs r] by metis
qed

lemma tag_rx_rejects_dot_dash:
  assumes "c = CHR ''.'' \<or> c = CHR ''-''"
  shows "\<not> re_match_eol tag_rx (c # s)"
proof -
  from assms have "c \<notin> set alnum_us"
    by (auto simp: alnum_us_def)
  then show ?thesis
    unfolding tag_rx_def by (rule re_match_eol_first_char)
qed

text \<open>
  C9. Whenever the image string has a tag part (the text after its first colon) and that
  part is 129 characters or longer, or begins with a dot or a hyphen, \<open>check_name\<close>
  rejects the image.
\<close>

theorem check_name_rejects_bad_tag:
  assumes "CHR '':'' \<in> set img"
    and "129 \<le> length (snd (split_image img ''latest''))
         \<or> take 1 (snd (split_image img ''latest'')) = ''.''
         \<or> take 1 (snd (split_image img ''latest'')) = ''-''"
  shows "\<not> check_name img"
proof -
  obtain repo tag where st: "split_image img ''latest'' = (repo, tag)"
    by (cases "split_image img ''latest''")
  from assms(2) st consider "129 \<le> length tag" | "take 1 tag = ''.''" | "take 1 tag = ''-''"
    by auto
  then show ?thesis
  proof cases
    case 1
    with st show ?thesis by (simp add: check_name_def)
  next
    case 2
    then obtain s where "tag = CHR ''.'' # s"
      by (cases tag) simp_all
    with st tag_rx_rejects_dot_dash [of "CHR ''.''" s] show ?thesis
      by (simp add: check_name_def)
  next
    case 3
    then obtain s where "tag = CHR ''-'' # s"
      by (cases tag) simp_all
    with st tag_rx_rejects_dot_dash [of "CHR ''-''" s] show ?thesis
      by (simp add: check_name_def)
  qed
qed

theorem check_name_rejects_bad_tag_witness:
  "CHR '':'' \<in> set ''app:.hidden''
   \<and> take 1 (snd (split_image ''app:.hidden'' ''latest'')) = ''.''
   \<and> \<not> check_name ''app:.hidden''"
proof -
  have a: "CHR '':'' \<in> set ''app:.hidden''"
    by simp
  have b: "take 1 (snd (split_image ''app:.hidden'' ''latest'')) = ''.''"
    by (simp add: split_image_def)
  from check_name_rejects_bad_tag [of "''app:.hidden''"] a b
  show ?thesis by blast
qed


section \<open>The matcher decides the language of its pattern\<close>

lemma nullable_lang: "nullable r \<longleftrightarrow> [] \<in> lang r"
  by (induction r) (auto intro: star_empty)

lemma star_first:
  assumes "x \<in> star A" and "x = c # w"
  shows "\<exists>u v. w = u @ v \<and> c # u \<in> A \<and> v \<in> star A"
  using assms
proof (induction arbitrary: w)
  case star_empty
  then show ?case by simp
next
  case (star_more u v)
  show ?case
  proof (cases u)
    case Nil
    with star_more show ?thesis by simp
  next
    case (Cons d u')
    with star_more.prems have "d = c" "w = u' @ v"
      by simp_all
    with Cons star_more.hyps show ?thesis by blast
  qed
qed

lemma star_Cons:
  "c # w \<in> star A \<longleftrightarrow> (\<exists>u v. w = u @ v \<and> c # u \<in> A \<and> v \<in> star A)"
proof
  assume "c # w \<in> star A"
  then show "\<exists>u v. w = u @ v \<and> c # u \<in> A \<and> v \<in> star A"
    using star_first by blast
next
  assume "\<exists>u v. w = u @ v \<and> c # u \<in> A \<and> v \<in> star A"
  then obtain u v where "w = u @ v" "c # u \<in> A" "v \<in> star A"
    by blast
  then show "c # w \<in> star A"
    using star_more [of "c # u" A v] by simp
qed

lemma deriv_lang: "w \<in> lang (deriv c r) \<longleftrightarrow> c # w \<in> lang r"
proof (induction r arbitrary: w)
  case (Chars cs)
  then show ?case by auto
next
  case Eps
  then show ?case by simp
next
  case (Cat r s)
  have "c # w \<in> lang (Cat r s)
        \<longleftrightarrow> (\<exists>u v. w = u @ v \<and> c # u \<in> lang r \<and> v \<in> lang s) \<or> ([] \<in> lang r \<and> c # w \<in> lang s)"
  proof
    assume "c # w \<in> lang (Cat r s)"
    then obtain u v where uv: "c # w = u @ v" "u \<in> lang r" "v \<in> lang s"
      by auto
    show "(\<exists>u v. w = u @ v \<and> c # u \<in> lang r \<and> v \<in> lang s) \<or> ([] \<in> lang r \<and> c # w \<in> lang s)"
    proof (cases u)
      case Nil
      with uv show ?thesis by simp
    next
      case (Cons d u')
      with uv have "d = c" "w = u' @ v" by simp_all
      with Cons uv show ?thesis by blast
    qed
  next
    assume "(\<exists>u v. w = u @ v \<and> c # u \<in> lang r \<and> v \<in> lang s) \<or> ([] \<in> lang r \<and> c # w \<in> lang s)"
    then show "c # w \<in> lang (Cat r s)"
    proof
      assume "\<exists>u v. w = u @ v \<and> c # u \<in> lang r \<and> v \<in> lang s"
      then obtain u v where "w = u @ v" "c # u \<in> lang r" "v \<in> lang s" by blast
      then have "c # w = (c # u) @ v \<and> c # u \<in> lang r \<and> v \<in> lang s" by simp
      then show ?thesis unfolding lang.simps by blast
    next
      assume "[] \<in> lang r \<and> c # w \<in> lang s"
      then have "c # w = [] @ (c # w) \<and> [] \<in> lang r \<and> c # w \<in> lang s" by simp
      then show ?thesis unfolding lang.simps by blast
    qed
  qed
  moreover have "w \<in> lang (deriv c (Cat r s))
        \<longleftrightarrow> (\<exists>u v. w = u @ v \<and> c # u \<in> lang r \<and> v \<in> lang s) \<or> ([] \<in> lang r \<and> c # w \<in> lang s)"
    using Cat.IH by (auto simp: nullable_lang)
  ultimately show ?case by blast
next
  case (Alt r s)
  then show ?case by simp
next
  case (Rep r)
  have "w \<in> lang (deriv c (Rep r)) \<longleftrightarrow> (\<exists>u v. w = u @ v \<and> c # u \<in> lang r \<and> v \<in> star (lang r))"
    using Rep.IH by auto
  then show ?case
    by (simp add: star_Cons)
qed

lemma derivs_lang: "w \<in> lang (derivs r s) \<longleftrightarrow> s @ w \<in> lang r"
  by (induction s arbitrary: r) (simp_all add: deriv_lang)

lemma fullmatch_lang: "fullmatch r s \<longleftrightarrow> s \<in> lang r"
  using derivs_lang [of "[]" r s] by (simp add: fullmatch_def nullable_lang)


section \<open>The paths that the names of the source denote\<close>

lemma split_on_nonempty: "split_on sep s \<noteq> []"
  by (induction s) (auto split: list.splits)

lemma split_on_append:
  "split_on sep (a @ sep # b) = split_on sep a @ split_on sep b"
proof (induction a)
  case Nil
  then show ?case by simp
next
  case (Cons c a)
  show ?case
  proof (cases "c = sep")
    case True
    with Cons show ?thesis by simp
  next
    case False
    obtain w ws where w: "split_on sep a = w # ws"
      using split_on_nonempty [of sep a] by (cases "split_on sep a") auto
    with Cons False show ?thesis by simp
  qed
qed

lemma path_of_join: "path_of (a @ ''/'' @ b) = path_of a @ path_of b"
  by (simp add: path_of_def split_on_append)

lemma split_on_plain: "sep \<notin> set n \<Longrightarrow> split_on sep n = [n]"
proof (induction n)
  case Nil
  then show ?case by simp
next
  case (Cons c n)
  then have "c \<noteq> sep" "split_on sep n = [n]"
    by auto
  then show ?case by simp
qed

lemma path_of_name:
  assumes "n \<noteq> []" and "CHR ''/'' \<notin> set n"
  shows "path_of n = [n]"
  using assms by (simp add: path_of_def split_on_plain)

lemma path_of_Nil: "path_of [] = []"
  by (simp add: path_of_def)

lemma link_name:
  "path_of (repo @ ''/_manifests/tags/'' @ tag @ ''/current/link'')
   = tag_dir repo tag @ [''current'', ''link'']"
proof -
  have "path_of (repo @ ''/'' @ (''_manifests'' @ ''/'' @ (''tags'' @ ''/'' @ (tag @ ''/'' @ (''current'' @ ''/'' @ ''link'')))))
        = path_of repo @ path_of ''_manifests'' @ path_of ''tags'' @ path_of tag
               @ path_of ''current'' @ path_of ''link''"
    by (simp only: path_of_join)
  then show ?thesis
    by (simp add: path_of_name tag_dir_def tags_dir_def)
qed

lemma index_name:
  assumes "index \<noteq> []" and "CHR ''/'' \<notin> set index"
  shows "path_of ((repo @ ''/_manifests/tags/'' @ tag @ ''/index/sha256/'') @ index)
         = (tag_dir repo tag @ [''index'', ''sha256'']) @ [index]"
proof -
  have "path_of (repo @ ''/'' @ (''_manifests'' @ ''/'' @ (''tags'' @ ''/'' @ (tag @ ''/'' @ (''index'' @ ''/'' @ (''sha256'' @ ''/'' @ index))))))
        = path_of repo @ path_of ''_manifests'' @ path_of ''tags'' @ path_of tag
               @ path_of ''index'' @ path_of ''sha256'' @ path_of index"
    by (simp only: path_of_join)
  with assms show ?thesis
    by (simp add: path_of_name tag_dir_def tags_dir_def)
qed

lemma revision_name:
  assumes "revision \<noteq> []" and "CHR ''/'' \<notin> set revision"
  shows "path_of (repo @ ''/_manifests/revisions/sha256/'' @ revision)
         = revisions_dir repo @ [revision]"
proof -
  have "path_of (repo @ ''/'' @ (''_manifests'' @ ''/'' @ (''revisions'' @ ''/'' @ (''sha256'' @ ''/'' @ revision))))
        = path_of repo @ path_of ''_manifests'' @ path_of ''revisions''
               @ path_of ''sha256'' @ path_of revision"
    by (simp only: path_of_join)
  with assms show ?thesis
    by (simp add: path_of_name revisions_dir_def)
qed

lemma tags_name: "path_of (repo @ ''/_manifests/tags/'') = tags_dir repo"
proof -
  have "path_of (repo @ ''/'' @ (''_manifests'' @ ''/'' @ (''tags'' @ ''/'' @ [])))
        = path_of repo @ path_of ''_manifests'' @ path_of ''tags'' @ path_of []"
    by (simp only: path_of_join)
  then show ?thesis
    by (simp add: path_of_name path_of_Nil tags_dir_def)
qed


section \<open>What the store operations do\<close>

lemma prune_Nil: "prune [] fs = fs"
  by (simp add: prune_def)

lemma prune_prune: "prune ds (prune ds' fs) = prune (ds' @ ds) fs"
  by (auto simp: prune_def intro: filter_cong)

lemma lookup_filter_keys:
  "lookup (filter (\<lambda>e. P (fst e)) fs) p = (if P p then lookup fs p else None)"
  by (induction fs) (auto simp: lookup_def)

lemma lookup_prune:
  "lookup (prune ds fs) p = (if \<exists>d\<in>set ds. prefix d p then None else lookup fs p)"
  unfolding prune_def using lookup_filter_keys [of "\<lambda>q. \<not> (\<exists>d\<in>set ds. prefix d q)" fs p]
  by simp

lemma keys_prune:
  "map fst (prune ds fs) = filter (\<lambda>q. \<not> (\<exists>d\<in>set ds. prefix d q)) (map fst fs)"
  by (simp add: prune_def filter_map comp_def)

lemma rmtree_prune: "rmtree fs p = Inr fs' \<Longrightarrow> fs' = prune [p] fs"
  by (auto simp: rmtree_def prune_def split: option.splits node.splits)

lemma remove_each_prune:
  "remove_each fs ps = (fs', r) \<Longrightarrow>
     \<exists>ds. set ds \<subseteq> set ps \<and> (r = None \<longrightarrow> ds = ps) \<and> fs' = prune ds fs"
proof (induction ps arbitrary: fs)
  case Nil
  then show ?case by (auto simp: prune_Nil)
next
  case (Cons p ps)
  show ?case
  proof (cases "rmtree fs p")
    case (Inl e)
    with Cons.prems have "fs' = fs" "r = Some e" by auto
    then show ?thesis by (intro exI [of _ "[]"]) (simp add: prune_Nil)
  next
    case (Inr fs1)
    with Cons.prems have "remove_each fs1 ps = (fs', r)" by simp
    from Cons.IH [OF this] obtain ds where
      ds: "set ds \<subseteq> set ps" "r = None \<longrightarrow> ds = ps" "fs' = prune ds fs1" by blast
    from Inr have "fs1 = prune [p] fs" by (rule rmtree_prune)
    with ds have "fs' = prune (p # ds) fs" by (simp add: prune_prune)
    with ds show ?thesis by (intro exI [of _ "p # ds"]) auto
  qed
qed

lemma iglob_prune:
  "iglob (prune ds fs) ps = filter (\<lambda>q. \<not> (\<exists>d\<in>set ds. prefix d q)) (iglob fs ps)"
  by (auto simp: iglob_def keys_prune intro: filter_cong)

lemma children_prune:
  "set (children (prune ds fs) p) = {n. \<exists>q \<in> fst ` set fs. q \<noteq> [] \<and> butlast q = p \<and> last q = n \<and> \<not> (\<exists>d\<in>set ds. prefix d q)}"
  unfolding children_def keys_prune by (auto simp: image_iff)

lemma list_all2_lits:
  "list_all2 pmatch (map Lit R @ ps) q \<longleftrightarrow> (\<exists>q'. q = R @ q' \<and> list_all2 pmatch ps q')"
proof (induction R arbitrary: q)
  case Nil
  then show ?case by simp
next
  case (Cons r R)
  show ?case
    by (cases q) (auto simp: Cons.IH)
qed


section \<open>What the pruner deletes\<close>

lemma clean_revisions_prune:
  assumes "clean_revisions fs repo = (fs', r)"
  shows "\<exists>ds. set ds \<subseteq> set (stale_revisions fs repo) \<and>
              (r = None \<longrightarrow> ds = stale_revisions fs repo \<and> isdir fs (revisions_dir repo)) \<and>
              fs' = prune ds fs"
proof (cases "listdir fs (revisions_dir repo)")
  case (Inl e)
  with assms have "fs' = fs" "r = Some e"
    by (simp_all add: clean_revisions_def)
  then show ?thesis
    by (intro exI [of _ "[]"]) (simp add: prune_Nil)
next
  case (Inr revisions)
  then have rv: "revisions = children fs (revisions_dir repo)" and d: "isdir fs (revisions_dir repo)"
    by (auto simp: listdir_def isdir_def split: option.splits node.splits)
  from assms Inr rv have "remove_each fs (stale_revisions fs repo) = (fs', r)"
    by (simp add: clean_revisions_def stale_revisions_def)
  from remove_each_prune [OF this] d show ?thesis by blast
qed

lemma in_iglob: "q \<in> set (iglob fs ps) \<longleftrightarrow> q \<in> fst ` set fs \<and> list_all2 pmatch ps q"
  by (auto simp: iglob_def)

lemma manifests_pat_iff:
  "list_all2 pmatch (manifests_pat repo) q \<longleftrightarrow>
     (\<exists>t x d. q = tags_dir repo @ [t, x, ''sha256'', d] \<and> \<not> hidden t \<and> \<not> hidden x \<and> \<not> hidden d)"
  by (auto simp: manifests_pat_def tags_dir_def list_all2_lits list_all2_Cons1)

lemma index_pat_iff:
  "list_all2 pmatch (index_pat repo) q \<longleftrightarrow>
     (\<exists>t d. q = tags_dir repo @ [t, ''index'', ''sha256'', d] \<and> \<not> hidden t \<and> \<not> hidden d)"
  by (auto simp: index_pat_def tags_dir_def list_all2_lits list_all2_Cons1)

lemma links_pat_iff:
  "list_all2 pmatch (links_pat repo) q \<longleftrightarrow>
     (\<exists>t. q = tags_dir repo @ [t, ''current'', ''link''] \<and> \<not> hidden t)"
  by (auto simp: links_pat_def tags_dir_def list_all2_lits list_all2_Cons1)

lemma in_children: "n \<in> set (children fs p) \<longleftrightarrow> p @ [n] \<in> fst ` set fs"
proof
  assume "n \<in> set (children fs p)"
  then obtain q where "q \<in> fst ` set fs" "q \<noteq> []" "butlast q = p" "last q = n"
    by (auto simp: children_def)
  then show "p @ [n] \<in> fst ` set fs"
    using append_butlast_last_id [of q] by simp
next
  assume "p @ [n] \<in> fst ` set fs"
  then show "n \<in> set (children fs p)"
    by (force simp: children_def image_iff)
qed

lemma lookup_None_iff: "lookup fs p = None \<longleftrightarrow> p \<notin> fst ` set fs"
  by (simp add: lookup_def map_of_eq_None_iff)

lemma read_currents_mem:
  "read_currents fs ls = Inr cs \<Longrightarrow>
     set cs = {d. \<exists>l\<in>set ls. \<exists>c. read_file fs l = Inr c \<and> d = link_digest c}"
proof (induction ls arbitrary: cs)
  case Nil
  then show ?case by simp
next
  case (Cons l ls)
  from Cons.prems obtain c cs' where
    c: "read_file fs l = Inr c" and cs': "read_currents fs ls = Inr cs'"
    and cs: "cs = link_digest c # cs'"
    by (auto split: sum.splits)
  from Cons.IH [OF cs'] cs c show ?case
    by auto
qed

lemma read_currents_cong:
  assumes "\<And>l. l \<in> set ls \<Longrightarrow> lookup fs' l = lookup fs l"
  shows "read_currents fs' ls = read_currents fs ls"
  using assms
proof (induction ls)
  case Nil
  then show ?case by simp
next
  case (Cons l ls)
  then have "read_file fs' l = read_file fs l" "read_currents fs' ls = read_currents fs ls"
    by (simp_all add: read_file_def)
  then show ?case by (simp split: sum.splits)
qed

lemma clean_tag_done:
  assumes "\<not> remove_opt a" and "clean_tag a fs repo tag = (fs', Done)"
  shows "\<exists>c. read_file fs (tag_dir repo tag @ [''current'', ''link'']) = Inr c \<and>
             isdir (prune (stale_index fs repo tag c) fs) (revisions_dir repo) \<and>
             fs' = prune (stale_index fs repo tag c @
                          stale_revisions (prune (stale_index fs repo tag c) fs) repo) fs"
proof -
  let ?link = "tag_dir repo tag @ [''current'', ''link'']"
  let ?path = "tag_dir repo tag @ [''index'', ''sha256'']"
  from assms have f: "isfile fs ?link"
    by (auto simp: clean_tag_def Let_def split: if_splits)
  from assms f obtain c where c: "read_file fs ?link = Inr c"
    by (auto simp: clean_tag_def Let_def split: sum.splits)
  from assms f c obtain names where n: "listdir fs ?path = Inr names"
    by (auto simp: clean_tag_def Let_def split: sum.splits)
  then have names: "names = children fs ?path"
    by (auto simp: listdir_def split: option.splits node.splits)
  from assms f c n names obtain fs1 where
    r1: "remove_each fs (stale_index fs repo tag c) = (fs1, None)"
    and r2: "clean_revisions fs1 repo = (fs', None)"
    by (auto simp: clean_tag_def Let_def stale_index_def split: prod.splits option.splits)
  from remove_each_prune [OF r1] have fs1: "fs1 = prune (stale_index fs repo tag c) fs"
    by auto
  from clean_revisions_prune [OF r2] have
    "fs' = prune (stale_revisions fs1 repo) fs1" "isdir fs1 (revisions_dir repo)"
    by auto
  with fs1 c show ?thesis
    by (auto simp: prune_prune)
qed

lemma clean_tag_effect:
  assumes "\<not> remove_opt a" and "clean_tag a fs repo tag = (fs', out)"
  shows "\<exists>ds1 ds2. fs' = prune (ds1 @ ds2) fs \<and>
           (\<forall>d\<in>set ds1. \<exists>i. d = tag_dir repo tag @ [''index'', ''sha256'', i] \<and>
                              current_digest fs repo (path_of tag) \<noteq> Some i) \<and>
           set ds2 \<subseteq> set (stale_revisions (prune ds1 fs) repo)"
proof -
  let ?link = "tag_dir repo tag @ [''current'', ''link'']"
  let ?path = "tag_dir repo tag @ [''index'', ''sha256'']"
  have trivial: ?thesis if "fs' = fs"
    using that by (intro exI [of _ "[]"]) (simp add: prune_Nil)
  show ?thesis
  proof (cases "isfile fs ?link")
    case False
    with assms have "fs' = fs" by (simp add: clean_tag_def Let_def)
    then show ?thesis by (rule trivial)
  next
    case f: True
    show ?thesis
    proof (cases "read_file fs ?link")
      case (Inl e)
      with assms f have "fs' = fs" by (simp add: clean_tag_def Let_def)
      then show ?thesis by (rule trivial)
    next
      case c: (Inr c)
      then have cur: "current_digest fs repo (path_of tag) = Some (link_digest c)"
        by (simp add: current_digest_def tag_dir_def)
      show ?thesis
      proof (cases "listdir fs ?path")
        case (Inl e)
        with assms f c have "fs' = fs" by (simp add: clean_tag_def Let_def)
        then show ?thesis by (rule trivial)
      next
        case n: (Inr names)
        then have names: "names = children fs ?path"
          by (auto simp: listdir_def split: option.splits node.splits)
        obtain fs1 r1 where r1: "remove_each fs (stale_index fs repo tag c) = (fs1, r1)"
          by (cases "remove_each fs (stale_index fs repo tag c)")
        from remove_each_prune [OF r1] obtain ds1 where
          ds1: "set ds1 \<subseteq> set (stale_index fs repo tag c)" "fs1 = prune ds1 fs"
          by blast
        have shape: "\<forall>d\<in>set ds1. \<exists>i. d = tag_dir repo tag @ [''index'', ''sha256'', i] \<and>
                              current_digest fs repo (path_of tag) \<noteq> Some i"
          using ds1(1) cur by (auto simp: stale_index_def)
        show ?thesis
        proof (cases r1)
          case (Some e)
          with assms f c n names r1 have "fs' = fs1"
            by (simp add: clean_tag_def Let_def stale_index_def)
          with ds1 shape show ?thesis
            by (intro exI [of _ ds1] exI [of _ "[]"]) simp
        next
          case None
          obtain fs2 r2 where r2: "clean_revisions fs1 repo = (fs2, r2)"
            by (cases "clean_revisions fs1 repo")
          with assms f c n names r1 None have "fs' = fs2"
            by (auto simp: clean_tag_def Let_def stale_index_def split: option.splits)
          moreover from clean_revisions_prune [OF r2] obtain ds2 where
            "set ds2 \<subseteq> set (stale_revisions fs1 repo)" "fs2 = prune ds2 fs1"
            by blast
          ultimately show ?thesis
            using ds1 shape by (intro exI [of _ ds1] exI [of _ ds2]) (simp add: prune_prune)
        qed
      qed
    qed
  qed
qed


section \<open>The example stores, evaluated\<close>

lemma ex_store_pruned: "clean_repo prune_args ex_store ''r'' = (ex_pruned, Done)"
  by code_simp

lemma ex_pruned_settled: "clean_repo prune_args ex_pruned ''r'' = (ex_pruned, Done)"
  by code_simp

lemma remove_args_remove: "remove_opt remove_args"
  by (simp add: remove_args_def)

lemma split_r_t1: "split_image ''r:t1'' '''' = (''r'', ''t1'')"
  by (simp add: split_image_def)

lemma ex_store_repo: "''r'' \<noteq> [] \<and> isdir ex_store (path_of ''r'')"
  by code_simp

lemma ex_store_tags: "listdir ex_store (tags_dir ''r'') = Inr [''t1'', ''t2'']"
  by code_simp

lemma ex_store_wf: "wf_store ex_store"
  by code_simp

lemma ex_store_t1: "isfile ex_store (tag_dir ''r'' ''t1'' @ [''current'', ''link''])"
  by code_simp


section \<open>What a prune of the whole repository deletes\<close>

lemma clean_repo_with_tag:
  assumes "\<not> remove_opt a" and "split_image img '''' = (repo, tag)" and "tag \<noteq> []"
    and "repo \<noteq> []" and "isdir fs (path_of repo)"
  shows "clean_repo a fs img = clean_tag a fs repo tag"
  using assms by (simp add: clean_repo_def)

lemma clean_repo_missing:
  assumes "split_image img '''' = (repo, tag)" and "repo = [] \<or> \<not> isdir fs (path_of repo)"
  shows "clean_repo a fs img = (fs, Failed (''No such repository: '' @ repo))"
  using assms by (auto simp: clean_repo_def)

lemma clean_repo_done:
  assumes "\<not> remove_opt a" and "split_image img '''' = (repo, [])"
    and "clean_repo a fs img = (fs', Done)"
  shows "\<exists>cs. read_currents fs (iglob fs (links_pat repo)) = Inr cs \<and>
              repo \<noteq> [] \<and> isdir fs (path_of repo) \<and>
              isdir (prune (stale_entries fs repo cs) fs) (revisions_dir repo) \<and>
              fs' = prune (stale_entries fs repo cs @
                           stale_revisions (prune (stale_entries fs repo cs) fs) repo) fs"
proof -
  from assms have ok: "repo \<noteq> []" "isdir fs (path_of repo)"
    by (auto simp: clean_repo_def split: if_splits)
  with assms obtain cs where cs: "read_currents fs (iglob fs (links_pat repo)) = Inr cs"
    by (auto simp: clean_repo_def split: sum.splits)
  with assms ok obtain fs1 where
    r1: "remove_each fs (stale_entries fs repo cs) = (fs1, None)"
    and r2: "clean_revisions fs1 repo = (fs', None)"
    by (auto simp: clean_repo_def stale_entries_def split: prod.splits option.splits)
  from remove_each_prune [OF r1] have fs1: "fs1 = prune (stale_entries fs repo cs) fs"
    by auto
  from clean_revisions_prune [OF r2] have
    "fs' = prune (stale_revisions fs1 repo) fs1" "isdir fs1 (revisions_dir repo)"
    by auto
  with fs1 cs ok show ?thesis
    by (auto simp: prune_prune)
qed

lemma stale_entries_shape:
  assumes cs: "read_currents fs (iglob fs (links_pat repo)) = Inr cs"
    and d: "d \<in> set (stale_entries fs repo cs)"
  shows "\<exists>t i. d = tags_dir repo @ [t, ''index'', ''sha256'', i] \<and>
               current_digest fs repo [t] \<noteq> Some i"
proof -
  from d have g: "d \<in> set (iglob fs (index_pat repo))" and l: "last d \<notin> set cs"
    by (auto simp: stale_entries_def)
  from g obtain t i where
    di: "d = tags_dir repo @ [t, ''index'', ''sha256'', i]" and t: "\<not> hidden t"
    by (auto simp: in_iglob index_pat_iff)
  have "current_digest fs repo [t] \<noteq> Some i"
  proof
    assume "current_digest fs repo [t] = Some i"
    then obtain c where c: "read_file fs (tags_dir repo @ [t, ''current'', ''link'']) = Inr c"
      and i: "i = link_digest c"
      by (auto simp: current_digest_def split: sum.splits)
    from c have "lookup fs (tags_dir repo @ [t, ''current'', ''link'']) \<noteq> None"
      by (auto simp: read_file_def split: option.splits)
    then have "tags_dir repo @ [t, ''current'', ''link''] \<in> fst ` set fs"
      by (simp add: lookup_None_iff)
    with t have "tags_dir repo @ [t, ''current'', ''link''] \<in> set (iglob fs (links_pat repo))"
      by (auto simp: in_iglob links_pat_iff)
    with c i read_currents_mem [OF cs] have "i \<in> set cs"
      by blast
    with l di show False by simp
  qed
  with di show ?thesis by blast
qed

lemma clean_repo_effect:
  assumes "\<not> remove_opt a" and "split_image img '''' = (repo, [])"
    and "clean_repo a fs img = (fs', out)"
  shows "\<exists>ds1 ds2. fs' = prune (ds1 @ ds2) fs \<and>
           (\<forall>d\<in>set ds1. \<exists>t i. d = tags_dir repo @ [t, ''index'', ''sha256'', i] \<and>
                              current_digest fs repo [t] \<noteq> Some i) \<and>
           set ds2 \<subseteq> set (stale_revisions (prune ds1 fs) repo)"
proof -
  have trivial: ?thesis if "fs' = fs"
    using that by (intro exI [of _ "[]"]) (simp add: prune_Nil)
  show ?thesis
  proof (cases "repo = [] \<or> \<not> isdir fs (path_of repo)")
    case True
    with assms have "fs' = fs" by (auto simp: clean_repo_def)
    then show ?thesis by (rule trivial)
  next
    case ok: False
    show ?thesis
    proof (cases "read_currents fs (iglob fs (links_pat repo))")
      case (Inl e)
      with assms ok have "fs' = fs" by (simp add: clean_repo_def)
      then show ?thesis by (rule trivial)
    next
      case cs: (Inr cs)
      obtain fs1 r1 where r1: "remove_each fs (stale_entries fs repo cs) = (fs1, r1)"
        by (cases "remove_each fs (stale_entries fs repo cs)")
      from remove_each_prune [OF r1] obtain ds1 where
        ds1: "set ds1 \<subseteq> set (stale_entries fs repo cs)" "fs1 = prune ds1 fs"
        by blast
      have shape: "\<forall>d\<in>set ds1. \<exists>t i. d = tags_dir repo @ [t, ''index'', ''sha256'', i] \<and>
                              current_digest fs repo [t] \<noteq> Some i"
        using ds1(1) stale_entries_shape [OF cs] by blast
      show ?thesis
      proof (cases r1)
        case (Some e)
        with assms ok cs r1 have "fs' = fs1"
          by (simp add: clean_repo_def stale_entries_def)
        with ds1 shape show ?thesis
          by (intro exI [of _ ds1] exI [of _ "[]"]) simp
      next
        case None
        obtain fs2 r2 where r2: "clean_revisions fs1 repo = (fs2, r2)"
          by (cases "clean_revisions fs1 repo")
        with assms ok cs r1 None have "fs' = fs2"
          by (auto simp: clean_repo_def stale_entries_def split: option.splits)
        moreover from clean_revisions_prune [OF r2] obtain ds2 where
          "set ds2 \<subseteq> set (stale_revisions fs1 repo)" "fs2 = prune ds2 fs1"
          by blast
        ultimately show ?thesis
          using ds1 shape by (intro exI [of _ ds1] exI [of _ ds2]) (simp add: prune_prune)
      qed
    qed
  qed
qed

lemma stale_revisions_shape:
  assumes "d \<in> set (stale_revisions fs repo)"
  shows "\<exists>r. d = revisions_dir repo @ [r] \<and> revisions_dir repo @ [r] \<in> fst ` set fs \<and>
             r \<notin> last ` set (iglob fs (manifests_pat repo))"
  using assms by (auto simp: stale_revisions_def in_children)

lemma clean_tag_prunable:
  assumes "\<not> remove_opt a" and "clean_tag a fs repo tag = (fs', out)"
  shows "\<exists>ds. fs' = prune ds fs \<and> (\<forall>d\<in>set ds. prunable fs repo d)"
proof -
  from clean_tag_effect [OF assms] obtain ds1 ds2 where
    fs': "fs' = prune (ds1 @ ds2) fs"
    and s1: "\<forall>d\<in>set ds1. \<exists>i. d = tag_dir repo tag @ [''index'', ''sha256'', i] \<and>
                              current_digest fs repo (path_of tag) \<noteq> Some i"
    and s2: "set ds2 \<subseteq> set (stale_revisions (prune ds1 fs) repo)"
    by blast
  have "prunable fs repo d" if "d \<in> set ds1" for d
    using s1 that unfolding prunable_def tag_dir_def by fastforce
  moreover have "prunable fs repo d" if "d \<in> set ds2" for d
    using s2 that stale_revisions_shape [of d "prune ds1 fs" repo] unfolding prunable_def by blast
  ultimately show ?thesis
    using fs' by (intro exI [of _ "ds1 @ ds2"]) auto
qed

lemma clean_repo_prunable:
  assumes "\<not> remove_opt a" and "clean_repo a fs img = (fs', out)"
  shows "\<exists>ds. fs' = prune ds fs \<and> (\<forall>d\<in>set ds. prunable fs (fst (split_image img '''')) d)"
proof -
  obtain repo tag where st: "split_image img '''' = (repo, tag)"
    by (cases "split_image img ''''")
  have trivial: ?thesis if "fs' = fs"
    using that by (intro exI [of _ "[]"]) (simp add: prune_Nil)
  show ?thesis
  proof (cases "repo = [] \<or> \<not> isdir fs (path_of repo)")
    case True
    with clean_repo_missing [OF st, of fs a] assms have "fs' = fs" by simp
    then show ?thesis by (rule trivial)
  next
    case ok: False
    show ?thesis
    proof (cases "tag = []")
      case True
      with st have st': "split_image img '''' = (repo, [])" by simp
      from clean_repo_effect [OF assms(1) st' assms(2)] obtain ds1 ds2 where
        fs': "fs' = prune (ds1 @ ds2) fs"
        and s1: "\<forall>d\<in>set ds1. \<exists>t i. d = tags_dir repo @ [t, ''index'', ''sha256'', i] \<and>
                              current_digest fs repo [t] \<noteq> Some i"
        and s2: "set ds2 \<subseteq> set (stale_revisions (prune ds1 fs) repo)"
        by blast
      have "prunable fs repo d" if "d \<in> set ds1" for d
      proof -
        from s1 that obtain t i where "d = tags_dir repo @ [t] @ [''index'', ''sha256'', i]"
          "current_digest fs repo [t] \<noteq> Some i" by auto
        then show ?thesis unfolding prunable_def by blast
      qed
      moreover have "prunable fs repo d" if "d \<in> set ds2" for d
        using s2 that stale_revisions_shape [of d "prune ds1 fs" repo]
        unfolding prunable_def by blast
      ultimately show ?thesis
        using fs' st by (intro exI [of _ "ds1 @ ds2"]) auto
    next
      case False
      with ok clean_repo_with_tag [OF assms(1) st] have "clean_repo a fs img = clean_tag a fs repo tag"
        by simp
      with assms clean_tag_prunable [of a fs repo tag fs' out] st show ?thesis
        by simp
    qed
  qed
qed

lemma prefix_index_short:
  assumes "prefix (T @ [x, y, z]) q" and "length q \<le> 3"
  shows "T = [] \<and> q = [x, y, z]"
proof -
  from assms(1) obtain zs where q: "q = (T @ [x, y, z]) @ zs"
    by (auto simp: prefix_def)
  with assms(2) have "length T + 3 + length zs \<le> 3"
    by simp
  then have "T = []" "zs = []"
    by simp_all
  with q show ?thesis by simp
qed

lemma prunable_not_above:
  assumes "prunable fs repo d"
  shows "\<not> prefix d (path_of repo)"
    and "\<not> prefix d (tags_dir repo @ [t])"
    and "\<not> prefix d (tags_dir repo @ [t, ''current'', ''link''])"
proof -
  from assms consider
    (idx) T i where "d = tags_dir repo @ T @ [''index'', ''sha256'', i]"
  | (rev) r where "d = revisions_dir repo @ [r]"
    unfolding prunable_def by blast
  then have "\<not> prefix d (path_of repo) \<and> \<not> prefix d (tags_dir repo @ [t]) \<and>
             \<not> prefix d (tags_dir repo @ [t, ''current'', ''link''])"
  proof cases
    case idx
    have a: "\<not> prefix d (path_of repo)"
      using idx prefix_length_le [of d "path_of repo"] by (auto simp: tags_dir_def)
    have b: "\<not> prefix d (tags_dir repo @ [t])"
      using idx prefix_index_short [of T "''index''" "''sha256''" i "[t]"] by auto
    have c: "\<not> prefix d (tags_dir repo @ [t, ''current'', ''link''])"
      using idx prefix_index_short [of T "''index''" "''sha256''" i "[t, ''current'', ''link'']"]
      by auto
    from a b c show ?thesis by blast
  next
    case rev
    then show ?thesis
      using prefix_length_le [of d "path_of repo"]
      by (auto simp: revisions_dir_def tags_dir_def)
  qed
  then show "\<not> prefix d (path_of repo)"
    and "\<not> prefix d (tags_dir repo @ [t])"
    and "\<not> prefix d (tags_dir repo @ [t, ''current'', ''link''])"
    by blast+
qed


section \<open>A prune deletes stale entries only\<close>

text \<open>
  C4. Without the remove flag, a run of \<open>clean_repo\<close> or of \<open>clean_tag\<close>, however it
  ends, leaves the repository directory, every tag directory and every tag's
  \<open>current/link\<close> as they were. Every path the run changes is deleted, and lies in an
  index entry whose digest is not the current digest of its tag, or in a revision
  entry.
\<close>

theorem prune_keeps_pointers:
  assumes "\<not> remove_opt a"
    and "(clean_repo a fs img = (fs', out) \<and> fst (split_image img '''') = repo)
         \<or> clean_tag a fs repo tag = (fs', out)"
  shows "lookup fs' (path_of repo) = lookup fs (path_of repo) \<and>
         (\<forall>t. lookup fs' (tags_dir repo @ [t]) = lookup fs (tags_dir repo @ [t]) \<and>
              lookup fs' (tags_dir repo @ [t, ''current'', ''link''])
                = lookup fs (tags_dir repo @ [t, ''current'', ''link''])) \<and>
         (\<forall>p. lookup fs' p \<noteq> lookup fs p \<longrightarrow>
              lookup fs' p = None \<and>
              ((\<exists>T i. prefix (tags_dir repo @ T @ [''index'', ''sha256'', i]) p \<and>
                      current_digest fs repo T \<noteq> Some i)
               \<or> (\<exists>r. prefix (revisions_dir repo @ [r]) p)))"
proof -
  from assms clean_repo_prunable [of a fs img fs' out] clean_tag_prunable [of a fs repo tag fs' out]
  obtain ds where fs': "fs' = prune ds fs" and ds: "\<forall>d\<in>set ds. prunable fs repo d"
    by blast
  have keep: "lookup fs' p = lookup fs p" if "\<And>d. prunable fs repo d \<Longrightarrow> \<not> prefix d p" for p
    using that ds by (auto simp: fs' lookup_prune)
  have 1: "lookup fs' (path_of repo) = lookup fs (path_of repo)"
    by (rule keep) (rule prunable_not_above)
  have 2: "lookup fs' (tags_dir repo @ [t]) = lookup fs (tags_dir repo @ [t])" for t
    by (rule keep) (rule prunable_not_above)
  have 3: "lookup fs' (tags_dir repo @ [t, ''current'', ''link''])
           = lookup fs (tags_dir repo @ [t, ''current'', ''link''])" for t
    by (rule keep) (rule prunable_not_above)
  have 4: "lookup fs' p = None \<and>
              ((\<exists>T i. prefix (tags_dir repo @ T @ [''index'', ''sha256'', i]) p \<and>
                      current_digest fs repo T \<noteq> Some i)
               \<or> (\<exists>r. prefix (revisions_dir repo @ [r]) p))"
    if "lookup fs' p \<noteq> lookup fs p" for p
  proof -
    from that obtain d where d: "d \<in> set ds" "prefix d p"
      by (auto simp: fs' lookup_prune split: if_splits)
    then have "lookup fs' p = None"
      by (auto simp: fs' lookup_prune)
    moreover from d ds have "prunable fs repo d" by blast
    ultimately show ?thesis
      using d(2) unfolding prunable_def by blast
  qed
  from 1 2 3 4 show ?thesis by blast
qed

theorem prune_keeps_pointers_witness:
  "\<not> remove_opt prune_args \<and>
   clean_repo prune_args ex_store ''r'' = (ex_pruned, Done) \<and>
   lookup ex_pruned (path_of ''r'') = lookup ex_store (path_of ''r'') \<and>
   lookup ex_pruned (tags_dir ''r'' @ [''t1''])  = lookup ex_store (tags_dir ''r'' @ [''t1'']) \<and>
   lookup ex_pruned (tags_dir ''r'' @ [''t1'', ''current'', ''link''])
     = lookup ex_store (tags_dir ''r'' @ [''t1'', ''current'', ''link'']) \<and>
   lookup ex_store (tags_dir ''r'' @ [''t1'', ''current'', ''link'']) = Some (File ''sha256:d1'') \<and>
   lookup ex_store (tags_dir ''r'' @ [''t1'', ''index'', ''sha256'', ''d3'']) = Some Dir \<and>
   lookup ex_pruned (tags_dir ''r'' @ [''t1'', ''index'', ''sha256'', ''d3'']) = None"
proof -
  have h1: "\<not> remove_opt prune_args"
    by (simp add: prune_args_def)
  have h2: "clean_repo prune_args ex_store ''r'' = (ex_pruned, Done)"
    by (rule ex_store_pruned)
  have h3: "fst (split_image ''r'' '''') = ''r''"
    by (simp add: split_image_def)
  note T = prune_keeps_pointers [OF h1 disjI1 [OF conjI [OF h2 h3]]]
  note c1 = T [THEN conjunct1]
  note c2 = T [THEN conjunct2, THEN conjunct1, rule_format, of "''t1''", THEN conjunct1]
  note c3 = T [THEN conjunct2, THEN conjunct1, rule_format, of "''t1''", THEN conjunct2]
  have c4: "lookup ex_store (tags_dir ''r'' @ [''t1'', ''current'', ''link'']) = Some (File ''sha256:d1'')"
    by code_simp
  have c5: "lookup ex_store (tags_dir ''r'' @ [''t1'', ''index'', ''sha256'', ''d3'']) = Some Dir"
    by code_simp
  have c6: "lookup ex_pruned (tags_dir ''r'' @ [''t1'', ''index'', ''sha256'', ''d3'']) = None"
    by code_simp
  show ?thesis
    by (intro conjI h1 h2 c1 c2 c3 c4 c5 c6)
qed


section \<open>A second prune finds nothing to delete\<close>

lemma in_keys_prune:
  "q \<in> fst ` set (prune ds fs) \<longleftrightarrow> q \<in> fst ` set fs \<and> \<not> (\<exists>d\<in>set ds. prefix d q)"
proof -
  have "fst ` set (prune ds fs) = set (map fst (prune ds fs))" by simp
  also have "\<dots> = {q \<in> fst ` set fs. \<not> (\<exists>d\<in>set ds. prefix d q)}"
    unfolding keys_prune by auto
  finally show ?thesis by blast
qed

lemma revision_not_above_tags:
  "\<not> prefix (revisions_dir repo @ [r]) (tags_dir repo @ q)"
  by (simp add: revisions_dir_def tags_dir_def)

lemma revision_not_above_revisions_dir:
  "\<not> prefix (revisions_dir repo @ [r]) (revisions_dir repo)"
  by (simp add: prefix_def)

lemma iglob_manifests_sweep:
  assumes "\<forall>d\<in>set ds. \<exists>r. d = revisions_dir repo @ [r]"
  shows "iglob (prune ds fs) (manifests_pat repo) = iglob fs (manifests_pat repo)"
proof -
  have "\<not> (\<exists>d\<in>set ds. prefix d q)" if "q \<in> set (iglob fs (manifests_pat repo))" for q
  proof -
    from that obtain q' where "q = tags_dir repo @ q'"
      by (auto simp: in_iglob manifests_pat_iff)
    with assms revision_not_above_tags [of repo _ q'] show ?thesis by auto
  qed
  then show ?thesis
    by (simp add: iglob_prune)
qed

lemma clean_revisions_settled:
  assumes d: "isdir fs (revisions_dir repo)"
  shows "clean_revisions (prune (stale_revisions fs repo) fs) repo
         = (prune (stale_revisions fs repo) fs, None)"
proof -
  let ?S = "stale_revisions fs repo"
  let ?fs1 = "prune ?S fs"
  have shape: "\<forall>d\<in>set ?S. \<exists>r. d = revisions_dir repo @ [r]"
    using stale_revisions_shape [of _ fs repo] by blast
  have "lookup ?fs1 (revisions_dir repo) = lookup fs (revisions_dir repo)"
    using shape revision_not_above_revisions_dir [of repo] by (auto simp: lookup_prune)
  with d have l: "listdir ?fs1 (revisions_dir repo) = Inr (children ?fs1 (revisions_dir repo))"
    by (simp add: listdir_def isdir_def)
  have m: "iglob ?fs1 (manifests_pat repo) = iglob fs (manifests_pat repo)"
    using shape by (rule iglob_manifests_sweep)
  have "n \<in> set (map last (iglob fs (manifests_pat repo)))"
    if n: "n \<in> set (children ?fs1 (revisions_dir repo))" for n
  proof (rule ccontr)
    assume no: "n \<notin> set (map last (iglob fs (manifests_pat repo)))"
    from n have k: "revisions_dir repo @ [n] \<in> fst ` set fs"
      and np: "\<not> (\<exists>d\<in>set ?S. prefix d (revisions_dir repo @ [n]))"
      by (simp_all add: in_children in_keys_prune)
    from k have "n \<in> set (children fs (revisions_dir repo))"
      by (simp add: in_children)
    with no have "revisions_dir repo @ [n] \<in> set ?S"
      by (simp add: stale_revisions_def)
    with np show False by blast
  qed
  then have "filter (\<lambda>revision. revision \<notin> set (map last (iglob fs (manifests_pat repo))))
               (children ?fs1 (revisions_dir repo)) = []"
    by (simp add: filter_empty_conv)
  with l m show ?thesis
    by (simp add: clean_revisions_def)
qed

lemma clean_repo_settled:
  assumes nr: "\<not> remove_opt a" and st: "split_image img '''' = (repo, [])"
    and run: "clean_repo a fs img = (fs1, Done)"
  shows "clean_repo a fs1 img = (fs1, Done)"
proof -
  from clean_repo_done [OF nr st run] obtain cs where
    cs: "read_currents fs (iglob fs (links_pat repo)) = Inr cs"
    and ok: "repo \<noteq> []" "isdir fs (path_of repo)"
    and rd: "isdir (prune (stale_entries fs repo cs) fs) (revisions_dir repo)"
    and fs1: "fs1 = prune (stale_entries fs repo cs @
                           stale_revisions (prune (stale_entries fs repo cs) fs) repo) fs"
    by blast
  let ?S1 = "stale_entries fs repo cs"
  let ?fsa = "prune ?S1 fs"
  let ?S2 = "stale_revisions ?fsa repo"
  have fs1': "fs1 = prune ?S2 ?fsa"
    by (simp add: fs1 prune_prune)
  have pr: "prunable fs repo d" if "d \<in> set (?S1 @ ?S2)" for d
  proof -
    from that consider "d \<in> set ?S1" | "d \<in> set ?S2" by auto
    then show ?thesis
    proof cases
      case 1
      from stale_entries_shape [OF cs 1] obtain t i where
        "d = tags_dir repo @ [t] @ [''index'', ''sha256'', i]" "current_digest fs repo [t] \<noteq> Some i"
        by auto
      then show ?thesis unfolding prunable_def by blast
    next
      case 2
      from stale_revisions_shape [OF 2] show ?thesis unfolding prunable_def by blast
    qed
  qed
  have keep: "lookup fs1 p = lookup fs p" if "\<And>d. prunable fs repo d \<Longrightarrow> \<not> prefix d p" for p
    using that pr by (auto simp: fs1 lookup_prune)
  have i: "isdir fs1 (path_of repo)"
    using ok(2) keep [of "path_of repo"] prunable_not_above(1) by (simp add: isdir_def)
  have links: "iglob fs1 (links_pat repo) = iglob fs (links_pat repo)"
  proof -
    have "\<not> (\<exists>d\<in>set (?S1 @ ?S2). prefix d q)" if "q \<in> set (iglob fs (links_pat repo))" for q
    proof -
      from that obtain t where "q = tags_dir repo @ [t, ''current'', ''link'']"
        by (auto simp: in_iglob links_pat_iff)
      with pr prunable_not_above(3) show ?thesis by blast
    qed
    then show ?thesis by (simp add: fs1 iglob_prune)
  qed
  have "read_currents fs1 (iglob fs (links_pat repo)) = read_currents fs (iglob fs (links_pat repo))"
  proof (rule read_currents_cong)
    fix l assume "l \<in> set (iglob fs (links_pat repo))"
    then obtain t where "l = tags_dir repo @ [t, ''current'', ''link'']"
      by (auto simp: in_iglob links_pat_iff)
    then show "lookup fs1 l = lookup fs l"
      using keep prunable_not_above(3) by blast
  qed
  with links cs have ii: "read_currents fs1 (iglob fs1 (links_pat repo)) = Inr cs"
    by simp
  have "last q \<in> set cs" if q: "q \<in> set (iglob fs1 (index_pat repo))" for q
  proof (rule ccontr)
    assume no: "last q \<notin> set cs"
    from q have "q \<in> set (iglob fs (index_pat repo))" and np: "\<not> (\<exists>d\<in>set (?S1 @ ?S2). prefix d q)"
      by (simp_all add: fs1 iglob_prune)
    with no have "q \<in> set ?S1"
      by (simp add: stale_entries_def)
    with np show False by auto
  qed
  then have iii: "filter (\<lambda>index. last index \<notin> set cs) (iglob fs1 (index_pat repo)) = []"
    by (simp add: filter_empty_conv)
  have iv: "clean_revisions fs1 repo = (fs1, None)"
    unfolding fs1' using rd by (rule clean_revisions_settled)
  from nr st ok i ii iii iv show ?thesis
    by (simp add: clean_repo_def)
qed

lemma clean_repo_failed_no_tag:
  assumes nr: "\<not> remove_opt a" and st: "split_image img '''' = (repo, [])"
    and run: "clean_repo a fs img = (fs1, Failed m)"
  shows "fs1 = fs \<and> (repo = [] \<or> \<not> isdir fs (path_of repo))"
proof (cases "repo = [] \<or> \<not> isdir fs (path_of repo)")
  case True
  with clean_repo_missing [OF st, of fs a] run show ?thesis by simp
next
  case ok: False
  have False
  proof (cases "read_currents fs (iglob fs (links_pat repo))")
    case (Inl e)
    with nr st ok run show False by (simp add: clean_repo_def)
  next
    case cs: (Inr cs)
    obtain fsa r1 where r1: "remove_each fs (stale_entries fs repo cs) = (fsa, r1)"
      by (cases "remove_each fs (stale_entries fs repo cs)")
    show False
    proof (cases r1)
      case (Some e)
      with nr st ok run cs r1 show False
        by (simp add: clean_repo_def stale_entries_def)
    next
      case None
      obtain fsb r2 where r2: "clean_revisions fsa repo = (fsb, r2)"
        by (cases "clean_revisions fsa repo")
      with nr st ok run cs r1 None show False
        by (cases r2) (simp_all add: clean_repo_def stale_entries_def)
    qed
  qed
  then show ?thesis ..
qed

lemma prune_all_settled:
  assumes nr: "\<not> remove_opt a" and nt: "snd (split_image img '''') = []"
    and run: "clean_repo a fs img = (fs1, out)" and ne: "\<forall>e. out \<noteq> Raised e"
  shows "clean_repo a fs1 img = (fs1, out)"
proof -
  obtain repo where st: "split_image img '''' = (repo, [])"
    using nt by (cases "split_image img ''''") simp
  show ?thesis
  proof (cases out)
    case Done
    with clean_repo_settled [OF nr st] run show ?thesis by simp
  next
    case (Failed m)
    with clean_repo_failed_no_tag [OF nr st] run have "fs1 = fs" by blast
    with run show ?thesis by simp
  next
    case (Raised e)
    with ne show ?thesis by simp
  qed
qed

text \<open>
  C2. Pruning is idempotent: when \<open>clean_repo\<close>, without the remove flag and for an image
  without a tag, returns (true or false) and leaves the store \<open>fs1\<close>, a second run on
  \<open>fs1\<close> returns the same and leaves \<open>fs1\<close>. On the example repository, one run leaves
  the index entries \<open>d1\<close> of \<open>t1\<close> and \<open>d2\<close> of \<open>t2\<close> and the revisions \<open>d1, d2\<close>, and a
  second run deletes nothing.
\<close>

theorem prune_all_idempotent:
  "(\<forall>a fs img fs1 out.
      \<not> remove_opt a \<and> snd (split_image img '''') = [] \<and>
      clean_repo a fs img = (fs1, out) \<and> (\<forall>e. out \<noteq> Raised e)
      \<longrightarrow> clean_repo a fs1 img = (fs1, out))
   \<and> clean_repo prune_args ex_store ''r'' = (ex_pruned, Done)
   \<and> clean_repo prune_args ex_pruned ''r'' = (ex_pruned, Done)"
proof (intro conjI allI impI)
  fix a fs img fs1 out
  assume "\<not> remove_opt a \<and> snd (split_image img '''') = [] \<and>
      clean_repo a fs img = (fs1, out) \<and> (\<forall>e. out \<noteq> Raised e)"
  then show "clean_repo a fs1 img = (fs1, out)"
    using prune_all_settled [of a img fs fs1 out] by simp
next
  show "clean_repo prune_args ex_store ''r'' = (ex_pruned, Done)"
    by (rule ex_store_pruned)
next
  show "clean_repo prune_args ex_pruned ''r'' = (ex_pruned, Done)"
    by (rule ex_pruned_settled)
qed

theorem prune_all_idempotent_witness:
  "\<not> remove_opt prune_args \<and> snd (split_image ''r'' '''') = [] \<and>
   clean_repo prune_args ex_store ''r'' = (ex_pruned, Done) \<and>
   clean_repo prune_args ex_pruned ''r'' = (ex_pruned, Done) \<and>
   children ex_pruned (revisions_dir ''r'') = [''d1'', ''d2''] \<and>
   children ex_pruned (tag_dir ''r'' ''t1'' @ [''index'', ''sha256'']) = [''d1''] \<and>
   children ex_pruned (tag_dir ''r'' ''t2'' @ [''index'', ''sha256'']) = [''d2'']"
proof -
  have h1: "\<not> remove_opt prune_args"
    by (simp add: prune_args_def)
  have h2: "snd (split_image ''r'' '''') = []"
    by (simp add: split_image_def)
  have h3: "clean_repo prune_args ex_store ''r'' = (ex_pruned, Done)"
    by (rule ex_store_pruned)
  have h4: "\<forall>e. Done \<noteq> Raised e"
    by simp
  have c: "clean_repo prune_args ex_pruned ''r'' = (ex_pruned, Done)"
    by (rule prune_all_idempotent [THEN conjunct1, rule_format,
          of prune_args "''r''" ex_store ex_pruned Done]) (intro conjI h1 h2 h3 h4)
  have d1: "children ex_pruned (revisions_dir ''r'') = [''d1'', ''d2'']"
    by code_simp
  have d2: "children ex_pruned (tag_dir ''r'' ''t1'' @ [''index'', ''sha256'']) = [''d1'']"
    by code_simp
  have d3: "children ex_pruned (tag_dir ''r'' ''t2'' @ [''index'', ''sha256'']) = [''d2'']"
    by code_simp
  show ?thesis
    by (intro conjI h1 h2 h3 c d1 d2 d3)
qed


section \<open>The sweep after a single-tag prune\<close>

lemma tags_not_above_revisions:
  "\<not> prefix (tags_dir repo @ q) (revisions_dir repo @ q')"
  by (simp add: revisions_dir_def tags_dir_def)

lemma hidden_index: "\<not> hidden ''index''"
  by (simp add: hidden_def)

lemma prefix_same_entry:
  assumes "prefix (T @ [''index'', ''sha256'', i]) [t, ''index'', ''sha256'', d]"
  shows "T = [t] \<and> i = d"
proof (cases T)
  case Nil
  with assms show ?thesis by simp
next
  case (Cons x T')
  with assms have x: "x = t" and r: "prefix (T' @ [''index'', ''sha256'', i]) [''index'', ''sha256'', d]"
    by simp_all
  from prefix_index_short [OF r] have "T' = []" "i = d"
    by simp_all
  with Cons x show ?thesis by simp
qed

text \<open>
  C6. In the single-tag case without the remove flag (\<open>clean_tag\<close> prunes the index of
  one tag, then sweeps the revisions of the repository), whatever the outcome: when the
  current digest \<open>d\<close> of a tag \<open>t\<close> of the repository, the pruned tag or any other, is in
  the index of \<open>t\<close>, the revision \<open>d\<close> and everything below it stay as they were. The tag
  and the digest are names that \<open>glob\<close> sees (no leading dot), as every tag name and every
  digest of a registry is.
\<close>

theorem sweep_keeps_current_revisions:
  assumes nr: "\<not> remove_opt a" and run: "clean_tag a fs repo tag = (fs', out)"
    and cur: "current_digest fs repo [t] = Some d"
    and idx: "d \<in> set (children fs (tags_dir repo @ [t, ''index'', ''sha256'']))"
    and vis: "\<not> hidden t \<and> \<not> hidden d"
    and below: "prefix (revisions_dir repo @ [d]) p"
  shows "lookup fs' p = lookup fs p"
proof -
  from clean_tag_effect [OF nr run] obtain ds1 ds2 where
    fs': "fs' = prune (ds1 @ ds2) fs"
    and s1: "\<forall>x\<in>set ds1. \<exists>i. x = tag_dir repo tag @ [''index'', ''sha256'', i] \<and>
                              current_digest fs repo (path_of tag) \<noteq> Some i"
    and s2: "set ds2 \<subseteq> set (stale_revisions (prune ds1 fs) repo)"
    by blast
  from below obtain rest where p: "p = revisions_dir repo @ [d] @ rest"
    by (auto simp: prefix_def)
  let ?e = "tags_dir repo @ [t, ''index'', ''sha256'', d]"
  have e_fs: "?e \<in> fst ` set fs"
    using idx by (simp add: in_children)
  have e_kept: "\<not> prefix x ?e" if "x \<in> set ds1" for x
  proof
    assume px: "prefix x ?e"
    from s1 that obtain i where x: "x = tags_dir repo @ path_of tag @ [''index'', ''sha256'', i]"
      and ni: "current_digest fs repo (path_of tag) \<noteq> Some i"
      by (auto simp: tag_dir_def)
    from px x have "prefix (path_of tag @ [''index'', ''sha256'', i]) [t, ''index'', ''sha256'', d]"
      by simp
    from prefix_same_entry [OF this] ni cur show False by simp
  qed
  have d_live: "d \<in> last ` set (iglob (prune ds1 fs) (manifests_pat repo))"
  proof -
    from e_fs e_kept have "?e \<in> fst ` set (prune ds1 fs)"
      by (auto simp: in_keys_prune)
    moreover from vis have "list_all2 pmatch (manifests_pat repo) ?e"
      unfolding manifests_pat_iff using hidden_index by blast
    ultimately have "?e \<in> set (iglob (prune ds1 fs) (manifests_pat repo))"
      by (simp add: in_iglob)
    then have "last ?e \<in> last ` set (iglob (prune ds1 fs) (manifests_pat repo))"
      by (rule imageI)
    then show ?thesis by simp
  qed
  have "\<not> prefix x p" if "x \<in> set (ds1 @ ds2)" for x
  proof -
    from that consider "x \<in> set ds1" | "x \<in> set ds2" by auto
    then show ?thesis
    proof cases
      case 1
      with s1 obtain i where "x = tags_dir repo @ (path_of tag @ [''index'', ''sha256'', i])"
        by (auto simp: tag_dir_def)
      then show ?thesis
        unfolding p using tags_not_above_revisions by simp
    next
      case 2
      with s2 stale_revisions_shape [of x "prune ds1 fs" repo] obtain r where
        x: "x = revisions_dir repo @ [r]"
        and r: "r \<notin> last ` set (iglob (prune ds1 fs) (manifests_pat repo))"
        by blast
      show ?thesis
      proof
        assume "prefix x p"
        with x p have "r = d" by simp
        with r d_live show False by simp
      qed
    qed
  qed
  then show ?thesis
    by (auto simp: fs' lookup_prune)
qed

theorem sweep_keeps_current_revisions_witness:
  "\<not> remove_opt prune_args \<and>
   clean_tag prune_args ex_store ''r'' ''t1'' = (prune [tag_dir ''r'' ''t1'' @ [''index'', ''sha256'', ''d3''], revisions_dir ''r'' @ [''d3'']] ex_store, Done) \<and>
   current_digest ex_store ''r'' [''t2''] = Some ''d2'' \<and>
   ''d2'' \<in> set (children ex_store (tags_dir ''r'' @ [''t2'', ''index'', ''sha256''])) \<and>
   \<not> hidden ''t2'' \<and> \<not> hidden ''d2'' \<and>
   prefix (revisions_dir ''r'' @ [''d2'']) (revisions_dir ''r'' @ [''d2'']) \<and>
   lookup (prune [tag_dir ''r'' ''t1'' @ [''index'', ''sha256'', ''d3''], revisions_dir ''r'' @ [''d3'']] ex_store) (revisions_dir ''r'' @ [''d2''])
     = lookup ex_store (revisions_dir ''r'' @ [''d2'']) \<and>
   lookup ex_store (revisions_dir ''r'' @ [''d2'']) = Some Dir"
proof -
  let ?fs' = "prune [tag_dir ''r'' ''t1'' @ [''index'', ''sha256'', ''d3''], revisions_dir ''r'' @ [''d3'']] ex_store"
  have h1: "\<not> remove_opt prune_args"
    by (simp add: prune_args_def)
  have h2: "clean_tag prune_args ex_store ''r'' ''t1'' = (?fs', Done)"
    by code_simp
  have h3: "current_digest ex_store ''r'' [''t2''] = Some ''d2''"
    by code_simp
  have h4: "''d2'' \<in> set (children ex_store (tags_dir ''r'' @ [''t2'', ''index'', ''sha256'']))"
    by code_simp
  have h5a: "\<not> hidden ''t2''"
    by (simp add: hidden_def)
  have h5b: "\<not> hidden ''d2''"
    by (simp add: hidden_def)
  note h5 = conjI [OF h5a h5b]
  have h6: "prefix (revisions_dir ''r'' @ [''d2'']) (revisions_dir ''r'' @ [''d2''])"
    by simp
  note c = sweep_keeps_current_revisions [OF h1 h2 h3 h4 h5 h6]
  have c': "lookup ex_store (revisions_dir ''r'' @ [''d2'']) = Some Dir"
    by code_simp
  show ?thesis
    by (intro conjI h1 h2 h3 h4 h5a h5b h6 c c')
qed


section \<open>Revisions that survive a prune\<close>

lemma surviving_revision_indexed:
  assumes d: "d \<in> set (children (prune (stale_revisions fs repo) fs) (revisions_dir repo))"
  shows "d \<in> last ` set (iglob fs (manifests_pat repo))"
proof (rule ccontr)
  assume no: "d \<notin> last ` set (iglob fs (manifests_pat repo))"
  from d have k: "revisions_dir repo @ [d] \<in> fst ` set fs"
    and np: "\<not> (\<exists>x\<in>set (stale_revisions fs repo). prefix x (revisions_dir repo @ [d]))"
    by (simp_all add: in_children in_keys_prune)
  from k no have "revisions_dir repo @ [d] \<in> set (stale_revisions fs repo)"
    by (simp add: stale_revisions_def in_children)
  with np show False by blast
qed

lemma current_digest_file:
  assumes "current_digest fs repo T = Some d"
  shows "\<exists>c. (tags_dir repo @ T @ [''current'', ''link''], File c) \<in> set fs \<and> link_digest c = d"
proof -
  from assms obtain c where "lookup fs (tags_dir repo @ T @ [''current'', ''link'']) = Some (File c)"
    and "link_digest c = d"
    by (auto simp: current_digest_def read_file_def split: option.splits node.splits)
  then show ?thesis
    by (auto simp: lookup_def dest: map_of_SomeD)
qed

lemma prune_all_no_orphan:
  assumes nr: "\<not> remove_opt a" and st: "split_image img '''' = (repo, [])"
    and run: "clean_repo a fs img = (fs', Done)"
    and lay: "index_only fs repo"
    and d: "d \<in> set (children fs' (revisions_dir repo))"
  shows "\<exists>t. current_digest fs' repo [t] = Some d"
proof -
  from clean_repo_done [OF nr st run] obtain cs where
    cs: "read_currents fs (iglob fs (links_pat repo)) = Inr cs"
    and fs': "fs' = prune (stale_entries fs repo cs @
                           stale_revisions (prune (stale_entries fs repo cs) fs) repo) fs"
    by blast
  let ?S1 = "stale_entries fs repo cs"
  let ?fsa = "prune ?S1 fs"
  let ?S2 = "stale_revisions ?fsa repo"
  have fs'': "fs' = prune ?S2 ?fsa"
    by (simp add: fs' prune_prune)
  from d have "d \<in> last ` set (iglob ?fsa (manifests_pat repo))"
    unfolding fs'' by (rule surviving_revision_indexed)
  then obtain q where q: "q \<in> set (iglob ?fsa (manifests_pat repo))" and lq: "last q = d"
    by auto
  from q have q0: "q \<in> set (iglob fs (manifests_pat repo))" and np: "\<not> (\<exists>x\<in>set ?S1. prefix x q)"
    by (simp_all add: iglob_prune)
  from lay q0 have qi: "q \<in> set (iglob fs (index_pat repo))"
    by (simp add: index_only_def list_all_iff)
  have "d \<in> set cs"
  proof (rule ccontr)
    assume "d \<notin> set cs"
    with qi lq have "q \<in> set ?S1"
      by (simp add: stale_entries_def)
    with np show False by auto
  qed
  with read_currents_mem [OF cs] obtain l c where
    l: "l \<in> set (iglob fs (links_pat repo))" and c: "read_file fs l = Inr c" and dc: "d = link_digest c"
    by auto
  from l obtain t where lt: "l = tags_dir repo @ [t, ''current'', ''link'']"
    by (auto simp: in_iglob links_pat_iff)
  have pr: "prunable fs repo x" if "x \<in> set (?S1 @ ?S2)" for x
  proof -
    from that consider "x \<in> set ?S1" | "x \<in> set ?S2" by auto
    then show ?thesis
    proof cases
      case 1
      from stale_entries_shape [OF cs 1] obtain t i where
        "x = tags_dir repo @ [t] @ [''index'', ''sha256'', i]" "current_digest fs repo [t] \<noteq> Some i"
        by auto
      then show ?thesis unfolding prunable_def by blast
    next
      case 2
      from stale_revisions_shape [OF 2] show ?thesis unfolding prunable_def by blast
    qed
  qed
  have "\<not> (\<exists>x\<in>set (?S1 @ ?S2). prefix x l)"
    unfolding lt using pr prunable_not_above(3) by blast
  then have "lookup fs' l = lookup fs l"
    by (simp add: fs' lookup_prune)
  with c have "read_file fs' l = Inr c"
    by (simp add: read_file_def)
  with dc lt have "current_digest fs' repo [t] = Some d"
    by (simp add: current_digest_def)
  then show ?thesis ..
qed

lemma prune_tag_indexed:
  assumes nr: "\<not> remove_opt a" and run: "clean_tag a fs repo tag = (fs', Done)"
  shows "(d \<in> set (children fs' (revisions_dir repo))
            \<longrightarrow> d \<in> last ` set (iglob fs' (manifests_pat repo)))
       \<and> (i \<in> set (children fs' (tag_dir repo tag @ [''index'', ''sha256'']))
            \<longrightarrow> current_digest fs' repo (path_of tag) = Some i)"
proof -
  from clean_tag_done [OF nr run] obtain c where
    c: "read_file fs (tag_dir repo tag @ [''current'', ''link'']) = Inr c"
    and fs': "fs' = prune (stale_index fs repo tag c @
                          stale_revisions (prune (stale_index fs repo tag c) fs) repo) fs"
    by blast
  let ?S1 = "stale_index fs repo tag c"
  let ?fsa = "prune ?S1 fs"
  let ?S2 = "stale_revisions ?fsa repo"
  let ?link = "tag_dir repo tag @ [''current'', ''link'']"
  have fs'': "fs' = prune ?S2 ?fsa"
    by (simp add: fs' prune_prune)
  have shape2: "\<forall>x\<in>set ?S2. \<exists>r. x = revisions_dir repo @ [r]"
    using stale_revisions_shape [of _ ?fsa repo] by blast
  have 1: "d \<in> last ` set (iglob fs' (manifests_pat repo))"
    if "d \<in> set (children fs' (revisions_dir repo))"
  proof -
    from that have "d \<in> last ` set (iglob ?fsa (manifests_pat repo))"
      unfolding fs'' by (rule surviving_revision_indexed)
    moreover have "iglob fs' (manifests_pat repo) = iglob ?fsa (manifests_pat repo)"
      unfolding fs'' using shape2 by (rule iglob_manifests_sweep)
    ultimately show ?thesis by simp
  qed
  have keep: "lookup fs' ?link = lookup fs ?link"
  proof -
    have "\<not> prefix x ?link" if "x \<in> set (?S1 @ ?S2)" for x
    proof -
      from that consider "x \<in> set ?S1" | "x \<in> set ?S2" by auto
      then show ?thesis
      proof cases
        case 1
        then obtain j where "x = tag_dir repo tag @ [''index'', ''sha256'', j]"
          by (auto simp: stale_index_def)
        then show ?thesis by simp
      next
        case 2
        with shape2 obtain r where "x = revisions_dir repo @ [r]" by blast
        then show ?thesis
          using revision_not_above_tags [of repo r "path_of tag @ [''current'', ''link'']"]
          by (simp add: tag_dir_def)
      qed
    qed
    then show ?thesis by (auto simp: fs' lookup_prune)
  qed
  with c have cur: "current_digest fs' repo (path_of tag) = Some (link_digest c)"
    by (simp add: current_digest_def read_file_def tag_dir_def)
  have 2: "current_digest fs' repo (path_of tag) = Some i"
    if i: "i \<in> set (children fs' (tag_dir repo tag @ [''index'', ''sha256'']))"
  proof -
    have "i = link_digest c"
    proof (rule ccontr)
      assume ne: "i \<noteq> link_digest c"
      from i have k: "(tag_dir repo tag @ [''index'', ''sha256'']) @ [i] \<in> fst ` set fs"
        and np: "\<not> (\<exists>x\<in>set (?S1 @ ?S2). prefix x ((tag_dir repo tag @ [''index'', ''sha256'']) @ [i]))"
        by (simp_all add: fs' in_children in_keys_prune)
      from k ne have "(tag_dir repo tag @ [''index'', ''sha256'']) @ [i] \<in> set ?S1"
        by (simp add: stale_index_def in_children)
      with np show False by auto
    qed
    with cur show ?thesis by simp
  qed
  from 1 2 show ?thesis by blast
qed

text \<open>
  C1 fails on the tag-given path. In the repository \<open>r\<close> of \<open>ex_stale\<close> the tag \<open>t2\<close> has the
  stale index entry \<open>d4\<close>. Pruning \<open>r:t1\<close> completes and deletes nothing: the sweep keeps
  the revision \<open>d4\<close>, which the index of \<open>t2\<close> still names, though no tag points to it.
\<close>

theorem tag_prune_leaves_orphan:
  "wf_store ex_stale \<and> \<not> remove_opt prune_args \<and>
   clean_repo prune_args ex_stale ''r:t1'' = (ex_stale, Done) \<and>
   ''d4'' \<in> set (children ex_stale (revisions_dir ''r'')) \<and>
   (\<forall>T. current_digest ex_stale ''r'' T \<noteq> Some ''d4'')"
proof -
  have 1: "wf_store ex_stale"
    by code_simp
  have 2: "\<not> remove_opt prune_args"
    by (simp add: prune_args_def)
  have 3: "clean_repo prune_args ex_stale ''r:t1'' = (ex_stale, Done)"
    by code_simp
  have 4: "''d4'' \<in> set (children ex_stale (revisions_dir ''r''))"
    by code_simp
  have files: "list_all (\<lambda>e. case snd e of File c \<Rightarrow> link_digest c \<noteq> ''d4'' | Dir \<Rightarrow> True) ex_stale"
    by code_simp
  have 5: "\<forall>T. current_digest ex_stale ''r'' T \<noteq> Some ''d4''"
  proof (intro allI notI)
    fix T assume "current_digest ex_stale ''r'' T = Some ''d4''"
    from current_digest_file [OF this] obtain c where
      "(tags_dir ''r'' @ T @ [''current'', ''link''], File c) \<in> set ex_stale" "link_digest c = ''d4''"
      by blast
    with files show False
      unfolding list_all_iff by force
  qed
  show ?thesis
    by (intro conjI 1 2 3 4 5)
qed

text \<open>
  C1, amended. Let a prune without the remove flag complete and leave the revision \<open>d\<close>.
  After the prune of all tags (\<open>clean_repo\<close> on an image without tag), in a repository
  where only index directories hold \<open>sha256\<close> entries, \<open>d\<close> is the current digest of some
  tag. After the prune of one tag (\<open>clean_tag\<close>), \<open>d\<close> is named by an entry below some
  tag (an index entry, possibly a stale one of another tag), and every entry left in the
  index of the pruned tag is that tag's current digest.
\<close>

theorem prune_no_orphan_revisions:
  assumes "\<not> remove_opt a" and "d \<in> set (children fs' (revisions_dir repo))"
  shows "(split_image img '''' = (repo, []) \<and> clean_repo a fs img = (fs', Done) \<and> index_only fs repo
            \<longrightarrow> (\<exists>t. current_digest fs' repo [t] = Some d))
       \<and> (clean_tag a fs repo tag = (fs', Done)
            \<longrightarrow> d \<in> last ` set (iglob fs' (manifests_pat repo)) \<and>
                (\<forall>i\<in>set (children fs' (tag_dir repo tag @ [''index'', ''sha256''])).
                    current_digest fs' repo (path_of tag) = Some i))"
proof (intro conjI impI ballI)
  assume "split_image img '''' = (repo, []) \<and> clean_repo a fs img = (fs', Done) \<and> index_only fs repo"
  with assms show "\<exists>t. current_digest fs' repo [t] = Some d"
    using prune_all_no_orphan [of a img repo fs fs' d] by blast
next
  assume "clean_tag a fs repo tag = (fs', Done)"
  with assms show "d \<in> last ` set (iglob fs' (manifests_pat repo))"
    using prune_tag_indexed [of a fs repo tag fs' d] by blast
next
  fix i
  assume "clean_tag a fs repo tag = (fs', Done)"
    and "i \<in> set (children fs' (tag_dir repo tag @ [''index'', ''sha256'']))"
  with assms show "current_digest fs' repo (path_of tag) = Some i"
    using prune_tag_indexed [of a fs repo tag fs' _ i] by blast
qed

theorem prune_no_orphan_revisions_witness:
  "\<not> remove_opt prune_args \<and>
   ''d1'' \<in> set (children ex_pruned (revisions_dir ''r'')) \<and>
   split_image ''r'' '''' = (''r'', []) \<and>
   clean_repo prune_args ex_store ''r'' = (ex_pruned, Done) \<and>
   index_only ex_store ''r'' \<and>
   (\<exists>t. current_digest ex_pruned ''r'' [t] = Some ''d1'') \<and>
   ''d4'' \<in> set (children ex_stale (revisions_dir ''r'')) \<and>
   clean_tag prune_args ex_stale ''r'' ''t1'' = (ex_stale, Done) \<and>
   ''d4'' \<in> last ` set (iglob ex_stale (manifests_pat ''r''))"
proof -
  have h1: "\<not> remove_opt prune_args"
    by (simp add: prune_args_def)
  have h2: "''d1'' \<in> set (children ex_pruned (revisions_dir ''r''))"
    by code_simp
  have h3: "split_image ''r'' '''' = (''r'', [])"
    by (simp add: split_image_def)
  have h4: "clean_repo prune_args ex_store ''r'' = (ex_pruned, Done)"
    by (rule ex_store_pruned)
  have h5: "index_only ex_store ''r''"
    by code_simp
  have c1: "\<exists>t. current_digest ex_pruned ''r'' [t] = Some ''d1''"
    by (rule prune_no_orphan_revisions [OF h1 h2, THEN conjunct1, rule_format,
          of "''r''" ex_store]) (intro conjI h3 h4 h5)
  have h6: "''d4'' \<in> set (children ex_stale (revisions_dir ''r''))"
    by code_simp
  have h7: "clean_tag prune_args ex_stale ''r'' ''t1'' = (ex_stale, Done)"
    by code_simp
  have c2: "''d4'' \<in> last ` set (iglob ex_stale (manifests_pat ''r''))"
    by (rule prune_no_orphan_revisions [OF h1 h6, THEN conjunct2, rule_format, THEN conjunct1,
          of ex_stale "''t1''"]) (rule h7)
  show ?thesis
    by (intro conjI h1 h2 h3 h4 h5 c1 h6 h7 c2)
qed


section \<open>Removal under the remove flag\<close>

lemma wf_parent:
  assumes "wf_store fs" and "lookup fs (p @ [x]) \<noteq> None"
  shows "isdir fs p"
proof -
  from assms(2) have "p @ [x] \<in> set (map fst fs)"
    by (simp add: lookup_None_iff)
  with assms(1) have "p @ [x] = [] \<or> isdir fs (butlast (p @ [x]))"
    unfolding wf_store_def list_all_iff by blast
  then show ?thesis by simp
qed

lemma wf_tag_dir:
  assumes wf: "wf_store fs" and f: "isfile fs (T @ [''current'', ''link''])"
  shows "isdir fs T"
proof -
  from f have "lookup fs ((T @ [''current'']) @ [''link'']) \<noteq> None"
    by (auto simp: isfile_def split: option.splits)
  from wf_parent [OF wf this] have "lookup fs (T @ [''current'']) \<noteq> None"
    by (simp add: isdir_def)
  from wf_parent [OF wf this] show ?thesis .
qed

lemma rmtree_dir: "isdir fs p \<Longrightarrow> rmtree fs p = Inr (prune [p] fs)"
  by (simp add: rmtree_def isdir_def prune_def)

lemma clean_tag_remove_cases:
  assumes "remove_opt a" and "clean_tag a fs repo tag = (fs', out)"
  shows "(fs' = fs \<and> out \<noteq> Done) \<or> (fs' = prune [tag_dir repo tag] fs \<and> out = Done)"
proof (cases "isfile fs (tag_dir repo tag @ [''current'', ''link''])")
  case False
  with assms show ?thesis by (auto simp: clean_tag_def)
next
  case True
  show ?thesis
  proof (cases "rmtree fs (tag_dir repo tag)")
    case (Inl e)
    with assms True show ?thesis by (auto simp: clean_tag_def)
  next
    case (Inr fs1)
    from rmtree_prune [OF Inr] Inr assms True show ?thesis by (auto simp: clean_tag_def)
  qed
qed

lemma clean_tag_remove_existing:
  assumes "remove_opt a" and "wf_store fs" and "isfile fs (tag_dir repo tag @ [''current'', ''link''])"
  shows "clean_tag a fs repo tag = (prune [tag_dir repo tag] fs, Done)"
proof -
  from wf_tag_dir [OF assms(2,3)] have "isdir fs (tag_dir repo tag)" .
  with assms show ?thesis
    by (simp add: clean_tag_def rmtree_dir)
qed

lemma clean_repo_remove_whole:
  assumes "remove_opt a" and "split_image img '''' = (repo, tag)"
    and "repo \<noteq> []" and "isdir fs (path_of repo)" and "listdir fs (tags_dir repo) = Inr tags"
    and "tag = [] \<or> length tags = 1 \<and> tag \<in> set tags"
  shows "clean_repo a fs img = (prune [path_of repo] fs, Done)"
  using assms by (simp add: clean_repo_def rmtree_dir)

lemma clean_repo_remove_tag:
  assumes "remove_opt a" and "split_image img '''' = (repo, tag)"
    and "repo \<noteq> []" and "isdir fs (path_of repo)" and "listdir fs (tags_dir repo) = Inr tags"
    and "tag \<noteq> []" and "\<not> (length tags = 1 \<and> tag \<in> set tags)"
  shows "clean_repo a fs img = clean_tag a fs repo tag"
  using assms by (auto simp: clean_repo_def split: bool.splits)

lemma tag_dir_not_above_repo: "\<not> prefix (tag_dir repo tag) (path_of repo)"
  by (simp add: tag_dir_def tags_dir_def prefix_def)

lemma lookup_prune_self: "lookup (prune [p] fs) p = None"
  by (simp add: lookup_prune)

text \<open>
  C7. With the remove flag and a tag given, on an existing repository whose tags
  directory lists \<open>tags\<close>: the repository directory is gone after the run exactly when
  \<open>tags\<close> has one entry and it is the given tag, and then the whole repository was
  removed. Otherwise, when the given tag exists (its \<open>current/link\<close> is a file of a
  tree-shaped store), the run removes the directory of that tag and nothing else: the
  repository directory is still there and every path outside the tag's directory is as
  it was.
\<close>

theorem remove_tag_or_repository:
  assumes rm: "remove_opt a" and st: "split_image img '''' = (repo, tag)" and tg: "tag \<noteq> []"
    and rd: "repo \<noteq> [] \<and> isdir fs (path_of repo)"
    and ls: "listdir fs (tags_dir repo) = Inr tags"
  shows "(lookup (fst (clean_repo a fs img)) (path_of repo) = None
            \<longleftrightarrow> length tags = 1 \<and> tag \<in> set tags)
       \<and> (length tags = 1 \<and> tag \<in> set tags
            \<longrightarrow> clean_repo a fs img = (prune [path_of repo] fs, Done))
       \<and> (\<not> (length tags = 1 \<and> tag \<in> set tags) \<and> wf_store fs \<and>
          isfile fs (tag_dir repo tag @ [''current'', ''link''])
            \<longrightarrow> clean_repo a fs img = (prune [tag_dir repo tag] fs, Done) \<and>
                isdir (prune [tag_dir repo tag] fs) (path_of repo) \<and>
                (\<forall>p. \<not> prefix (tag_dir repo tag) p
                     \<longrightarrow> lookup (prune [tag_dir repo tag] fs) p = lookup fs p))"
proof -
  from rd have r1: "repo \<noteq> []" and r2: "isdir fs (path_of repo)"
    by simp_all
  have whole: "clean_repo a fs img = (prune [path_of repo] fs, Done)"
    if "length tags = 1 \<and> tag \<in> set tags"
    using clean_repo_remove_whole [OF rm st r1 r2 ls] that by blast
  have part: "clean_repo a fs img = clean_tag a fs repo tag"
    if "\<not> (length tags = 1 \<and> tag \<in> set tags)"
    using clean_repo_remove_tag [OF rm st r1 r2 ls tg] that by blast
  have kept: "lookup (prune [tag_dir repo tag] fs) (path_of repo) = lookup fs (path_of repo)"
    using tag_dir_not_above_repo [of repo tag] by (simp add: lookup_prune)
  have 1: "lookup (fst (clean_repo a fs img)) (path_of repo) = None
            \<longleftrightarrow> length tags = 1 \<and> tag \<in> set tags"
  proof (cases "length tags = 1 \<and> tag \<in> set tags")
    case True
    with whole have "fst (clean_repo a fs img) = prune [path_of repo] fs"
      by simp
    with True show ?thesis
      by (simp add: lookup_prune_self)
  next
    case False
    obtain fs' out where run: "clean_tag a fs repo tag = (fs', out)"
      by (cases "clean_tag a fs repo tag")
    from clean_tag_remove_cases [OF rm run] kept
    have "lookup fs' (path_of repo) = lookup fs (path_of repo)"
      by auto
    with r2 have "lookup fs' (path_of repo) \<noteq> None"
      by (simp add: isdir_def)
    moreover from part [OF False] run have "fst (clean_repo a fs img) = fs'"
      by simp
    ultimately have "lookup (fst (clean_repo a fs img)) (path_of repo) \<noteq> None"
      by simp
    with False show ?thesis
      by blast
  qed
  have 3: "clean_repo a fs img = (prune [tag_dir repo tag] fs, Done) \<and>
           isdir (prune [tag_dir repo tag] fs) (path_of repo) \<and>
           (\<forall>p. \<not> prefix (tag_dir repo tag) p
                \<longrightarrow> lookup (prune [tag_dir repo tag] fs) p = lookup fs p)"
    if h: "\<not> (length tags = 1 \<and> tag \<in> set tags) \<and> wf_store fs \<and>
          isfile fs (tag_dir repo tag @ [''current'', ''link''])"
  proof -
    from h clean_tag_remove_existing [OF rm, of fs repo tag] part
    have "clean_repo a fs img = (prune [tag_dir repo tag] fs, Done)"
      by simp
    moreover from kept r2 have "isdir (prune [tag_dir repo tag] fs) (path_of repo)"
      by (simp add: isdir_def)
    moreover have "\<forall>p. \<not> prefix (tag_dir repo tag) p
                \<longrightarrow> lookup (prune [tag_dir repo tag] fs) p = lookup fs p"
      by (simp add: lookup_prune)
    ultimately show ?thesis by blast
  qed
  from 1 whole 3 show ?thesis by blast
qed

theorem remove_tag_or_repository_witness:
  "remove_opt remove_args \<and> split_image ''r:t1'' '''' = (''r'', ''t1'') \<and> ''t1'' \<noteq> [] \<and>
   (''r'' \<noteq> [] \<and> isdir ex_single (path_of ''r'')) \<and>
   listdir ex_single (tags_dir ''r'') = Inr [''t1''] \<and>
   (length [''t1''] = 1 \<and> ''t1'' \<in> set [''t1'']) \<and>
   clean_repo remove_args ex_single ''r:t1'' = (prune [path_of ''r''] ex_single, Done) \<and>
   lookup (fst (clean_repo remove_args ex_single ''r:t1'')) (path_of ''r'') = None \<and>
   prune [path_of ''r''] ex_single = [([], Dir)] \<and>
   (''r'' \<noteq> [] \<and> isdir ex_store (path_of ''r'')) \<and>
   listdir ex_store (tags_dir ''r'') = Inr [''t1'', ''t2''] \<and>
   \<not> (length [''t1'', ''t2''] = 1 \<and> ''t1'' \<in> set [''t1'', ''t2'']) \<and>
   wf_store ex_store \<and> isfile ex_store (tag_dir ''r'' ''t1'' @ [''current'', ''link'']) \<and>
   clean_repo remove_args ex_store ''r:t1'' = (prune [tag_dir ''r'' ''t1''] ex_store, Done) \<and>
   isdir (prune [tag_dir ''r'' ''t1''] ex_store) (path_of ''r'')"
proof -
  have t: "''t1'' \<noteq> []"
    by simp
  have s1: "''r'' \<noteq> [] \<and> isdir ex_single (path_of ''r'')"
    by code_simp
  have s2: "listdir ex_single (tags_dir ''r'') = Inr [''t1'']"
    by code_simp
  have s3: "length [''t1''] = 1 \<and> ''t1'' \<in> set [''t1'']"
    by simp
  note T1 = remove_tag_or_repository [OF remove_args_remove split_r_t1 t s1 s2]
  note a1 = T1 [THEN conjunct2, THEN conjunct1, rule_format, OF s3]
  note a2 = T1 [THEN conjunct1, THEN iffD2, OF s3]
  have a3: "prune [path_of ''r''] ex_single = [([], Dir)]"
    by code_simp
  have m: "\<not> (length [''t1'', ''t2''] = 1 \<and> ''t1'' \<in> set [''t1'', ''t2''])"
    by simp
  note T2 = remove_tag_or_repository [OF remove_args_remove split_r_t1 t ex_store_repo ex_store_tags]
  note b = T2 [THEN conjunct2, THEN conjunct2, rule_format, OF conjI [OF m conjI [OF ex_store_wf ex_store_t1]]]
  note b1 = b [THEN conjunct1]
  note b2 = b [THEN conjunct2, THEN conjunct1]
  show ?thesis
    by (intro conjI remove_args_remove split_r_t1 t s1 [THEN conjunct1] s1 [THEN conjunct2] s2
        s3 [THEN conjunct1] s3 [THEN conjunct2] a1 a2 a3
        ex_store_repo [THEN conjunct1] ex_store_repo [THEN conjunct2] ex_store_tags m
        ex_store_wf ex_store_t1 b1 b2)
qed

lemma children_prune_same:
  assumes "\<And>n. \<not> (\<exists>d\<in>set ds. prefix d (p @ [n]))"
  shows "children (prune ds fs) p = children fs p"
proof -
  have key: "\<not> (\<exists>d\<in>set ds. prefix d q)" if "q \<noteq> [] \<and> butlast q = p" for q
  proof -
    from that have "q = p @ [last q]" by auto
    with assms [of "last q"] show ?thesis by simp
  qed
  have "filter (\<lambda>q. q \<noteq> [] \<and> butlast q = p) (filter (\<lambda>q. \<not> (\<exists>d\<in>set ds. prefix d q)) xs)
        = filter (\<lambda>q. q \<noteq> [] \<and> butlast q = p) xs" for xs
    using key by (induction xs) auto
  then show ?thesis
    by (simp add: children_def keys_prune)
qed

lemma tag_dir_not_above_revisions:
  "\<not> prefix (tag_dir repo tag) (path_of repo @ [''_manifests'', ''revisions''] @ q)"
  by (simp add: tag_dir_def tags_dir_def)

text \<open>
  C10. With the remove flag, a tag given and more than one entry in the tags directory,
  \<open>clean_repo\<close> does what \<open>clean_tag\<close> does, and however the run ends everything below
  \<open>_manifests/revisions\<close> stays as it was: the revisions directory lists the same
  digests. When the tag exists, exactly the paths in its directory are deleted, so a
  revision that only this tag named stays on disk.
\<close>

theorem remove_tag_keeps_revisions:
  assumes rm: "remove_opt a" and st: "split_image img '''' = (repo, tag)" and tg: "tag \<noteq> []"
    and rd: "repo \<noteq> [] \<and> isdir fs (path_of repo)"
    and ls: "listdir fs (tags_dir repo) = Inr tags" and many: "1 < length tags"
  shows "clean_repo a fs img = clean_tag a fs repo tag
       \<and> (\<forall>p. prefix (path_of repo @ [''_manifests'', ''revisions'']) p
               \<longrightarrow> lookup (fst (clean_repo a fs img)) p = lookup fs p)
       \<and> children (fst (clean_repo a fs img)) (revisions_dir repo) = children fs (revisions_dir repo)
       \<and> (wf_store fs \<and> isfile fs (tag_dir repo tag @ [''current'', ''link''])
            \<longrightarrow> clean_repo a fs img = (prune [tag_dir repo tag] fs, Done) \<and>
                (\<forall>p. lookup (fst (clean_repo a fs img)) p
                       = (if prefix (tag_dir repo tag) p then None else lookup fs p)))"
proof -
  from rd have r1: "repo \<noteq> []" and r2: "isdir fs (path_of repo)"
    by simp_all
  from many have "\<not> (length tags = 1 \<and> tag \<in> set tags)"
    by simp
  from clean_repo_remove_tag [OF rm st r1 r2 ls tg this]
  have 1: "clean_repo a fs img = clean_tag a fs repo tag" .
  obtain fs' out where run: "clean_tag a fs repo tag = (fs', out)"
    by (cases "clean_tag a fs repo tag")
  from clean_tag_remove_cases [OF rm run]
  have cases: "fs' = fs \<or> fs' = prune [tag_dir repo tag] fs"
    by blast
  have 2: "\<forall>p. prefix (path_of repo @ [''_manifests'', ''revisions'']) p
               \<longrightarrow> lookup fs' p = lookup fs p"
  proof (intro allI impI)
    fix p assume "prefix (path_of repo @ [''_manifests'', ''revisions'']) p"
    then obtain q where "p = path_of repo @ [''_manifests'', ''revisions''] @ q"
      by (auto simp: prefix_def)
    with tag_dir_not_above_revisions [of repo tag q]
    have "lookup (prune [tag_dir repo tag] fs) p = lookup fs p"
      by (simp add: lookup_prune)
    with cases show "lookup fs' p = lookup fs p"
      by auto
  qed
  have 3: "children fs' (revisions_dir repo) = children fs (revisions_dir repo)"
  proof -
    have "\<not> (\<exists>d\<in>set [tag_dir repo tag]. prefix d (revisions_dir repo @ [n]))" for n
      using tag_dir_not_above_revisions [of repo tag "[''sha256'', n]"]
      by (simp add: revisions_dir_def)
    then have "children (prune [tag_dir repo tag] fs) (revisions_dir repo)
               = children fs (revisions_dir repo)"
      by (rule children_prune_same)
    with cases show ?thesis
      by auto
  qed
  have e: "fst (clean_repo a fs img) = fs'"
    using 1 run by simp
  have 4: "clean_repo a fs img = (prune [tag_dir repo tag] fs, Done) \<and>
                (\<forall>p. lookup fs' p = (if prefix (tag_dir repo tag) p then None else lookup fs p))"
    if h: "wf_store fs \<and> isfile fs (tag_dir repo tag @ [''current'', ''link''])"
  proof -
    from h clean_tag_remove_existing [OF rm, of fs repo tag] 1
    have r: "clean_repo a fs img = (prune [tag_dir repo tag] fs, Done)"
      by simp
    with e have "fs' = prune [tag_dir repo tag] fs"
      by simp
    then have "\<forall>p. lookup fs' p = (if prefix (tag_dir repo tag) p then None else lookup fs p)"
      by (simp add: lookup_prune)
    with r show ?thesis by blast
  qed
  show ?thesis
    unfolding e using 1 2 3 4 by blast
qed

theorem remove_tag_keeps_revisions_witness:
  "remove_opt remove_args \<and> split_image ''r:t1'' '''' = (''r'', ''t1'') \<and> ''t1'' \<noteq> [] \<and>
   (''r'' \<noteq> [] \<and> isdir ex_store (path_of ''r'')) \<and>
   listdir ex_store (tags_dir ''r'') = Inr [''t1'', ''t2''] \<and>
   1 < length [''t1'', ''t2''] \<and>
   wf_store ex_store \<and> isfile ex_store (tag_dir ''r'' ''t1'' @ [''current'', ''link'']) \<and>
   clean_repo remove_args ex_store ''r:t1'' = (prune [tag_dir ''r'' ''t1''] ex_store, Done) \<and>
   children (fst (clean_repo remove_args ex_store ''r:t1'')) (revisions_dir ''r'')
     = children ex_store (revisions_dir ''r'') \<and>
   children ex_store (revisions_dir ''r'') = [''d1'', ''d2'', ''d3'', ''d4''] \<and>
   ''d3'' \<notin> last ` set (iglob (prune [tag_dir ''r'' ''t1''] ex_store) (manifests_pat ''r''))"
proof -
  have t: "''t1'' \<noteq> []"
    by simp
  have m: "1 < length [''t1'', ''t2'']"
    by simp
  note T = remove_tag_keeps_revisions [OF remove_args_remove split_r_t1 t ex_store_repo ex_store_tags m]
  note c1 = T [THEN conjunct2, THEN conjunct2, THEN conjunct2, rule_format,
               OF conjI [OF ex_store_wf ex_store_t1], THEN conjunct1]
  note c2 = T [THEN conjunct2, THEN conjunct2, THEN conjunct1]
  have c3: "children ex_store (revisions_dir ''r'') = [''d1'', ''d2'', ''d3'', ''d4'']"
    by code_simp
  have c4: "''d3'' \<notin> last ` set (iglob (prune [tag_dir ''r'' ''t1''] ex_store) (manifests_pat ''r''))"
    by code_simp
  show ?thesis
    by (intro conjI remove_args_remove split_r_t1 t
        ex_store_repo [THEN conjunct1] ex_store_repo [THEN conjunct2] ex_store_tags m
        ex_store_wf ex_store_t1 c1 c2 c3 c4)
qed


section \<open>The batch and the exit status\<close>














lemma garbage_collect_host:
  "\<not> dockerized e \<Longrightarrow> truthy (garbage_collect e) \<longleftrightarrow> collector_exit e = 0"
  by (simp add: garbage_collect_def)

lemma garbage_collect_container:
  "dockerized e \<Longrightarrow> truthy (garbage_collect e) \<longleftrightarrow> collector_exit e \<noteq> 0"
  by (simp add: garbage_collect_def)

text \<open>
  C3 is what the claim says only on the host. In a container \<open>garbage_collect\<close> returns the
  collector's exit code itself and \<open>__call__\<close> tests it with \<open>not\<close>: a collector that fails
  (exit code 1) after a clean prune of \<open>r\<close> gives the exit status 0, and a collector that
  succeeds gives 1. On the host the same runs give 1 and 0.
\<close>

theorem container_status_inverted:
  "check_name ''r'' \<and>
   main \<lparr>dockerized = True, collector_exit = 1, setup_ok = True\<rparr>
        (prune_args\<lparr>images := [''r'']\<rparr>) ex_store
     = (ex_pruned, [Stop, Collect, Start], 0) \<and>
   main \<lparr>dockerized = True, collector_exit = 0, setup_ok = True\<rparr>
        (prune_args\<lparr>images := [''r'']\<rparr>) ex_store
     = (ex_pruned, [Stop, Collect, Start], 1) \<and>
   main \<lparr>dockerized = False, collector_exit = 1, setup_ok = True\<rparr>
        (prune_args\<lparr>images := [''r'']\<rparr>) ex_store
     = (ex_pruned, [Stop, Collect, Start], 1) \<and>
   main \<lparr>dockerized = False, collector_exit = 0, setup_ok = True\<rparr>
        (prune_args\<lparr>images := [''r'']\<rparr>) ex_store
     = (ex_pruned, [Stop, Collect, Start], 0)"
proof -
  have 0: "check_name ''r''"
    by code_simp
  have 1: "main \<lparr>dockerized = True, collector_exit = 1, setup_ok = True\<rparr>
        (prune_args\<lparr>images := [''r'']\<rparr>) ex_store
     = (ex_pruned, [Stop, Collect, Start], 0)"
    by code_simp
  have 2: "main \<lparr>dockerized = True, collector_exit = 0, setup_ok = True\<rparr>
        (prune_args\<lparr>images := [''r'']\<rparr>) ex_store
     = (ex_pruned, [Stop, Collect, Start], 1)"
    by code_simp
  have 3: "main \<lparr>dockerized = False, collector_exit = 1, setup_ok = True\<rparr>
        (prune_args\<lparr>images := [''r'']\<rparr>) ex_store
     = (ex_pruned, [Stop, Collect, Start], 1)"
    by code_simp
  have 4: "main \<lparr>dockerized = False, collector_exit = 0, setup_ok = True\<rparr>
        (prune_args\<lparr>images := [''r'']\<rparr>) ex_store
     = (ex_pruned, [Stop, Collect, Start], 0)"
    by code_simp
  show ?thesis
    by (intro conjI 0 1 2 3 4)
qed

end
